theory Spec2Isabelle
  imports Main "HOL-Library.Word"
begin

unbundle bit_operations_syntax

section \<open>JavaScript values used by the codec\<close>

text \<open>
  A \<open>Buffer\<close> (or \<open>Uint8Array\<close>) is a list of 8-bit words; storing a number into it
  keeps the number modulo 256.  A JavaScript string is a list of characters.  An
  exception \<open>throw new Error(msg)\<close> is the value \<open>Inl (Error msg)\<close> of a sum type.
\<close>

type_synonym byte = "8 word"
type_synonym buffer = "byte list"

datatype error = Error string

text \<open>\<open>s[0]\<close>: \<open>undefined\<close> on the empty string.\<close>

definition char0 :: "string \<Rightarrow> char option" where
  "char0 s = (case s of [] \<Rightarrow> None | c # _ \<Rightarrow> Some c)"

text \<open>\<open>s.substring(1)\<close>.\<close>

definition substring1 :: "string \<Rightarrow> string" where
  "substring1 s = drop 1 s"

text \<open>\<open>s.indexOf(c)\<close> for a one-character \<open>c\<close>: the first position, or \<open>-1\<close>.\<close>

fun indexOf_from :: "int \<Rightarrow> string \<Rightarrow> char \<Rightarrow> int" where
  "indexOf_from i [] c = - 1"
| "indexOf_from i (x # xs) c = (if x = c then i else indexOf_from (i + 1) xs c)"

definition indexOf :: "string \<Rightarrow> char \<Rightarrow> int" where
  "indexOf s c = indexOf_from 0 s c"

text \<open>\<open>s[i]\<close> appended to a string: out of range it is \<open>undefined\<close>, which
  string concatenation spells out.\<close>

definition str_at :: "string \<Rightarrow> int \<Rightarrow> string" where
  "str_at s i = (if 0 \<le> i \<and> i < int (length s) then [s ! nat i] else ''undefined'')"

text \<open>\<open>s.charAt(i)\<close>: the empty string out of range.\<close>

definition charAt :: "string \<Rightarrow> int \<Rightarrow> string" where
  "charAt s i = (if 0 \<le> i \<and> i < int (length s) then [s ! nat i] else [])"

text \<open>
  Letter case: the character classes \<open>[a-z]\<close> and \<open>[A-Z]\<close>, and
  \<open>toLowerCase\<close> and \<open>toUpperCase\<close> on the ASCII letters.  The alphabets of the
  codec are ASCII, and the model covers ASCII text: it leaves every other character as it
  is, where JavaScript changes some of them (\<open>toUpperCase\<close> turns U+00DF into
  \<open>SS\<close>).
\<close>

definition lowerLetters :: string where
  "lowerLetters = ''abcdefghijklmnopqrstuvwxyz''"

definition upperLetters :: string where
  "upperLetters = ''ABCDEFGHIJKLMNOPQRSTUVWXYZ''"

definition isLower :: "char \<Rightarrow> bool" where
  "isLower c = (c \<in> set lowerLetters)"

definition isUpper :: "char \<Rightarrow> bool" where
  "isUpper c = (c \<in> set upperLetters)"

definition toLowerChar :: "char \<Rightarrow> char" where
  "toLowerChar c = (case map_of (zip upperLetters lowerLetters) c of Some l \<Rightarrow> l | None \<Rightarrow> c)"

definition toUpperChar :: "char \<Rightarrow> char" where
  "toUpperChar c = (case map_of (zip lowerLetters upperLetters) c of Some u \<Rightarrow> u | None \<Rightarrow> c)"

definition toLowerCase :: "string \<Rightarrow> string" where
  "toLowerCase s = map toLowerChar s"

definition toUpperCase :: "string \<Rightarrow> string" where
  "toUpperCase s = map toUpperChar s"

text \<open>The 32-bit integer operators of JavaScript on integral numbers.\<close>

definition js_ToInt32 :: "int \<Rightarrow> int" where
  "js_ToInt32 x = sint (word_of_int x :: 32 word)"

text \<open>\<open>x << n\<close>\<close>

definition js_shl :: "int \<Rightarrow> nat \<Rightarrow> int" where
  "js_shl x n = sint (push_bit (n mod 32) (word_of_int x :: 32 word))"

text \<open>\<open>x >> n\<close>\<close>

definition js_sar :: "int \<Rightarrow> nat \<Rightarrow> int" where
  "js_sar x n = sint (signed_drop_bit (n mod 32) (word_of_int x :: 32 word))"

text \<open>\<open>x & y\<close>\<close>

definition js_and :: "int \<Rightarrow> int \<Rightarrow> int" where
  "js_and x y = sint ((word_of_int x :: 32 word) AND word_of_int y)"

text \<open>\<open>(x / y) | 0\<close>: the quotient truncated towards zero, then taken as a 32-bit
  integer (the floating-point quotient of two integers below \<open>2^53\<close> truncates to the
  integer quotient).\<close>

definition js_quot :: "int \<Rightarrow> int \<Rightarrow> int" where
  "js_quot x y = js_ToInt32 (sgn x * sgn y * (\<bar>x\<bar> div \<bar>y\<bar>))"

text \<open>\<open>x % y\<close>: the remainder has the sign of the dividend.\<close>

definition js_rem :: "int \<Rightarrow> int \<Rightarrow> int" where
  "js_rem x y = sgn x * (\<bar>x\<bar> mod \<bar>y\<bar>)"

section \<open>Base58 (Bitcoin alphabet)\<close>

definition ALPHABET :: string where
  "ALPHABET = ''123456789ABCDEFGHJKLMNPQRSTUVWXYZabcdefghijkmnopqrstuvwxyz''"

text \<open>
  \<open>encodeBase58BTC\<close>.  \<open>digits\<close> is an array of numbers, least significant first.
  For each byte: every digit is shifted left by 8, the byte is added to \<open>digits[0]\<close>
  (the array starts as \<open>[0]\<close> and only grows, so it has a first element; the model
  leaves an empty array as it is), then the carries are propagated.
\<close>

fun b58e_carry :: "int list \<Rightarrow> int \<Rightarrow> int list \<times> int" where
  "b58e_carry [] carry = ([], carry)"
| "b58e_carry (d # ds) carry =
     (let d' = d + carry;
          (ds', carry') = b58e_carry ds (js_quot d' 58)
      in (js_rem d' 58 # ds', carry'))"

lemma sint32_id:
  "- (2 ^ 31) \<le> x \<Longrightarrow> x < 2 ^ 31 \<Longrightarrow> sint (word_of_int x :: 32 word) = x"
  by (simp add: signed_of_int signed_take_bit_int_eq_self)

lemma js_ToInt32_abs_le: "\<bar>js_ToInt32 x\<bar> \<le> \<bar>x\<bar>"
proof (cases "- (2 ^ 31) \<le> x \<and> x < 2 ^ 31")
  case True
  then have "js_ToInt32 x = x"
    unfolding js_ToInt32_def by (simp add: sint32_id)
  then show ?thesis by simp
next
  case False
  have "- (2 ^ 31) \<le> js_ToInt32 x" "js_ToInt32 x < 2 ^ 31"
    unfolding js_ToInt32_def
    using sint_ge [of "word_of_int x :: 32 word"] sint_lt [of "word_of_int x :: 32 word"]
    by simp_all
  with False show ?thesis by linarith
qed

lemma js_quot_58_less: "carry \<noteq> 0 \<Longrightarrow> \<bar>js_quot carry 58\<bar> < \<bar>carry\<bar>"
proof -
  assume nz: "carry \<noteq> 0"
  have "\<bar>sgn carry * sgn (58::int) * (\<bar>carry\<bar> div \<bar>58\<bar>)\<bar> = \<bar>carry\<bar> div 58"
    using nz by (simp add: abs_mult)
  moreover have "\<bar>carry\<bar> div 58 < \<bar>carry\<bar>"
    using nz by (simp add: int_div_less_self)
  ultimately show ?thesis
    unfolding js_quot_def
    using js_ToInt32_abs_le [of "sgn carry * sgn 58 * (\<bar>carry\<bar> div \<bar>58\<bar>)"] by linarith
qed

function b58e_push :: "int list \<Rightarrow> int \<Rightarrow> int list" where
  "b58e_push digits carry =
     (if carry \<noteq> 0 then b58e_push (digits @ [js_rem carry 58]) (js_quot carry 58)
      else digits)"
  by pat_completeness auto
termination
  by (relation "measure (\<lambda>(digits, carry). nat \<bar>carry\<bar>)") (use js_quot_58_less in auto)

declare b58e_push.simps [simp del]

definition b58e_byte :: "int list \<Rightarrow> byte \<Rightarrow> int list" where
  "b58e_byte digits b =
     (let shifted = map (\<lambda>d. js_shl d 8) digits;
          added = (case shifted of [] \<Rightarrow> [] | d # ds \<Rightarrow> (d + uint b) # ds);
          (ds, carry) = b58e_carry added 0
      in b58e_push ds carry)"

text \<open>\<open>while (digits[digits.length - 1] === 0) digits.pop()\<close>; on the empty array the
  element is \<open>undefined\<close> and the loop stops.\<close>

function pop_zeros :: "int list \<Rightarrow> int list" where
  "pop_zeros digits =
     (if digits \<noteq> [] \<and> last digits = 0 then pop_zeros (butlast digits) else digits)"
  by pat_completeness auto
termination
  by (relation "measure length") auto

declare pop_zeros.simps [simp del]

definition encodeBase58BTC :: "buffer \<Rightarrow> string" where
  "encodeBase58BTC bytes =
     (let digits = fold (\<lambda>b ds. b58e_byte ds b) bytes [0]
      in concat (map (str_at ALPHABET) (rev (pop_zeros digits))))"

text \<open>
  \<open>decodeBase58BTC\<close>.  \<open>bytes\<close> is an array of numbers, least significant first; a
  character outside the alphabet raises.  The array is reversed and copied into a Buffer.
\<close>

fun b58d_carry :: "int list \<Rightarrow> int \<Rightarrow> int list \<times> int" where
  "b58d_carry [] v = ([], v)"
| "b58d_carry (b # bs) v =
     (let v1 = v + b * 58;
          (bs', v') = b58d_carry bs (js_sar v1 8)
      in (js_and v1 255 # bs', v'))"

lemma js_sar_8_less: "0 < v \<Longrightarrow> js_sar v 8 < v"
proof (cases "v < 2 ^ 31")
  case True
  assume "0 < v"
  with True have "sint (word_of_int v :: 32 word) = v"
    by (simp add: sint32_id)
  then have "js_sar v 8 = v div 2 ^ 8"
    unfolding js_sar_def by (simp add: sint_signed_drop_bit_eq drop_bit_eq_div)
  with \<open>0 < v\<close> show ?thesis by (simp add: int_div_less_self)
next
  case False
  have "sint (word_of_int v :: 32 word) < 2 ^ 31"
    using sint_lt [of "word_of_int v :: 32 word"] by simp
  then have "js_sar v 8 < 2 ^ 31"
    unfolding js_sar_def by (simp add: sint_signed_drop_bit_eq drop_bit_eq_div)
  with False show ?thesis by linarith
qed

function b58d_push :: "int list \<Rightarrow> int \<Rightarrow> int list" where
  "b58d_push bytes v =
     (if 0 < v then b58d_push (bytes @ [js_and v 255]) (js_sar v 8) else bytes)"
  by pat_completeness auto
termination
  by (relation "measure (\<lambda>(bytes, v). nat v)") (use js_sar_8_less in auto)

declare b58d_push.simps [simp del]

fun b58d_loop :: "int list \<Rightarrow> string \<Rightarrow> error + int list" where
  "b58d_loop bytes [] = Inr bytes"
| "b58d_loop bytes (c # cs) =
     (let v = indexOf ALPHABET c
      in if v = - 1 then Inl (Error ''Invalid Base58Bitcoin string'')
         else (let (bs, v') = b58d_carry bytes v in b58d_loop (b58d_push bs v') cs))"

definition decodeBase58BTC :: "string \<Rightarrow> error + buffer" where
  "decodeBase58BTC str =
     (case b58d_loop [] str of
        Inl e \<Rightarrow> Inl e
      | Inr bytes \<Rightarrow> Inr (map word_of_int (rev bytes)))"

section \<open>Base32 (RFC 4648, no padding)\<close>

definition BASE32_ALPHABET :: string where
  "BASE32_ALPHABET = ''ABCDEFGHIJKLMNOPQRSTUVWXYZ234567''"

text \<open>
  \<open>encodeBase32RFC\<close>.  \<open>value\<close> is only ever combined with \<open><<\<close>, \<open>|\<close>, \<open>>>>\<close> and
  \<open>&\<close>, so it is a 32-bit word; the bits shifted out at the top are lost, as in the
  source.  The inner loop emits one character for every five pending bits.
\<close>

function b32e_while :: "string \<Rightarrow> nat \<Rightarrow> 32 word \<Rightarrow> string \<times> nat" where
  "b32e_while result bits v =
     (if 5 \<le> bits
      then b32e_while
             (result @ charAt BASE32_ALPHABET (uint (drop_bit ((bits - 5) mod 32) v AND 31)))
             (bits - 5) v
      else (result, bits))"
  by pat_completeness auto
termination
  by (relation "measure (\<lambda>(result, bits, v). bits)") auto

declare b32e_while.simps [simp del]

definition b32e_step :: "string \<times> nat \<times> 32 word \<Rightarrow> byte \<Rightarrow> string \<times> nat \<times> 32 word" where
  "b32e_step st d =
     (case st of (result, bits, v) \<Rightarrow>
        (let v' = push_bit 8 v OR ucast d;
             (result', bits') = b32e_while result (bits + 8) v'
         in (result', bits', v')))"

definition encodeBase32RFC :: "buffer \<Rightarrow> string" where
  "encodeBase32RFC data =
     (case fold (\<lambda>d st. b32e_step st d) data ([], 0, 0) of (result, bits, v) \<Rightarrow>
        if 0 < bits
        then result @ charAt BASE32_ALPHABET (uint (push_bit ((5 - bits) mod 32) v AND 31))
        else result)"

text \<open>
  \<open>decodeBase32RFC\<close>.  The result buffer is allocated with \<open>ceil(length * 5 / 8)\<close>
  bytes and cut to the number of bytes written.  The source does not test the result of
  \<open>indexOf\<close>: for a character outside the alphabet \<open>-1\<close> is or-ed into \<open>value\<close>.
  The function has no \<open>throw\<close>; its result is \<open>Inr\<close> throughout.
\<close>

definition b32d_step :: "buffer \<times> nat \<times> 32 word \<times> nat \<Rightarrow> char \<Rightarrow> buffer \<times> nat \<times> 32 word \<times> nat" where
  "b32d_step st c =
     (case st of (result, bits, v, index) \<Rightarrow>
        (let charIndex = indexOf BASE32_ALPHABET c;
             v' = push_bit 5 v OR word_of_int charIndex;
             bits' = bits + 5
         in if 8 \<le> bits'
            then (result[index := ucast (drop_bit ((bits' - 8) mod 32) v' AND 255)],
                  bits' - 8, v', index + 1)
            else (result, bits', v', index)))"

definition decodeBase32RFC :: "string \<Rightarrow> error + buffer" where
  "decodeBase32RFC encoded =
     (case fold (\<lambda>c st. b32d_step st c) encoded
             (replicate ((length encoded * 5 + 7) div 8) 0, 0, 0, 0) of
        (result, bits, v, index) \<Rightarrow> Inr (take index result))"

section \<open>Base64url, on the runtime's base64\<close>

text \<open>
  The source calls the runtime (Node.js) for base64: \<open>buf.toString('base64')\<close> and
  \<open>Buffer.from(s, 'base64')\<close>.  The encoder writes four characters for every three
  bytes and pads the last group with \<open>=\<close>.  The decoder is lenient: it stops at the
  first \<open>=\<close>, skips every character outside the alphabet, reads \<open>-\<close> and \<open>_\<close> as
  \<open>+\<close> and \<open>/\<close>, and drops a last group of one character.
\<close>

definition BASE64_ALPHABET :: string where
  "BASE64_ALPHABET = ''ABCDEFGHIJKLMNOPQRSTUVWXYZabcdefghijklmnopqrstuvwxyz0123456789+/''"

definition b64_char :: "byte \<Rightarrow> char" where
  "b64_char s = BASE64_ALPHABET ! unat (s AND 63)"

fun buffer_toString_base64 :: "buffer \<Rightarrow> string" where
  "buffer_toString_base64 (a # b # c # rest) =
     [b64_char (drop_bit 2 a),
      b64_char (push_bit 4 (a AND 3) OR drop_bit 4 b),
      b64_char (push_bit 2 (b AND 15) OR drop_bit 6 c),
      b64_char (c AND 63)] @ buffer_toString_base64 rest"
| "buffer_toString_base64 [a, b] =
     [b64_char (drop_bit 2 a),
      b64_char (push_bit 4 (a AND 3) OR drop_bit 4 b),
      b64_char (push_bit 2 (b AND 15)),
      CHR ''='']"
| "buffer_toString_base64 [a] =
     [b64_char (drop_bit 2 a), b64_char (push_bit 4 (a AND 3)), CHR ''='', CHR ''='']"
| "buffer_toString_base64 [] = []"

definition unbase64 :: "char \<Rightarrow> byte option" where
  "unbase64 c =
     (if c = CHR ''-'' then Some 62
      else if c = CHR ''_'' then Some 63
      else (let i = indexOf BASE64_ALPHABET c in if i = - 1 then None else Some (word_of_int i)))"

fun b64_groups :: "byte list \<Rightarrow> buffer" where
  "b64_groups (s1 # s2 # s3 # s4 # rest) =
     [push_bit 2 s1 OR drop_bit 4 s2, push_bit 4 s2 OR drop_bit 2 s3, push_bit 6 s3 OR s4]
     @ b64_groups rest"
| "b64_groups [s1, s2, s3] = [push_bit 2 s1 OR drop_bit 4 s2, push_bit 4 s2 OR drop_bit 2 s3]"
| "b64_groups [s1, s2] = [push_bit 2 s1 OR drop_bit 4 s2]"
| "b64_groups [s1] = []"
| "b64_groups [] = []"

definition buffer_from_base64 :: "string \<Rightarrow> buffer" where
  "buffer_from_base64 s =
     b64_groups (List.map_filter unbase64 (takeWhile (\<lambda>c. c \<noteq> CHR ''='') s))"

text \<open>\<open>s.replace(/x/g, y)\<close> for single characters \<open>x\<close>, and with the empty string.\<close>

definition replace_all :: "char \<Rightarrow> char \<Rightarrow> string \<Rightarrow> string" where
  "replace_all x y s = map (\<lambda>c. if c = x then y else c) s"

definition remove_all :: "char \<Rightarrow> string \<Rightarrow> string" where
  "remove_all x s = filter (\<lambda>c. c \<noteq> x) s"

definition encodeBase64URL :: "buffer \<Rightarrow> string" where
  "encodeBase64URL input =
     (let base64 = buffer_toString_base64 input
      in replace_all CHR ''/'' CHR ''_'' (replace_all CHR ''+'' CHR ''-'' (remove_all CHR ''='' base64)))"

text \<open>\<open>decodeBase64URL\<close> pads the text to a multiple of four, decodes it to a
  latin1 string and copies the character codes into a \<open>Uint8Array\<close>.  It has no
  \<open>throw\<close>.\<close>

definition latin1 :: "buffer \<Rightarrow> string" where
  "latin1 buf = map (\<lambda>b. char_of (unat b)) buf"

definition charCodes :: "string \<Rightarrow> buffer" where
  "charCodes s = map (\<lambda>c. of_nat (of_char c)) s"

definition decodeBase64URL :: "string \<Rightarrow> error + buffer" where
  "decodeBase64URL input0 =
     (let input1 = replace_all CHR ''_'' CHR ''/'' (replace_all CHR ''-'' CHR ''+'' input0);
          paddingLength = length input1 mod 4;
          input2 = (if 0 < paddingLength
                    then input1 @ replicate (4 - paddingLength) CHR ''='' else input1);
          base64 = latin1 (buffer_from_base64 input2)
      in Inr (charCodes base64))"

section \<open>The size codec\<close>

text \<open>
  \<open>buf.slice(start, end)\<close>: a negative position counts from the end, and both are
  clamped to the buffer.
\<close>

definition slice_pos :: "nat \<Rightarrow> int \<Rightarrow> nat" where
  "slice_pos len x = (if x < 0 then nat (max 0 (int len + x)) else min (nat x) len)"

definition buf_slice :: "'a list \<Rightarrow> int \<Rightarrow> int \<Rightarrow> 'a list" where
  "buf_slice xs a b =
     (let s = slice_pos (length xs) a; e = slice_pos (length xs) b in take (e - s) (drop s xs))"

definition buf_slice_from :: "'a list \<Rightarrow> int \<Rightarrow> 'a list" where
  "buf_slice_from xs a = drop (slice_pos (length xs) a) xs"

text \<open>\<open>buffer[i] = x\<close>: the number is kept modulo 256; a write outside the buffer
  is dropped.\<close>

definition buf_store :: "buffer \<Rightarrow> int \<Rightarrow> int \<Rightarrow> buffer" where
  "buf_store buffer i x = (if 0 \<le> i then buffer[nat i := word_of_int x] else buffer)"

text \<open>
  \<open>numToBuf\<close>: \<open>value % 256\<close> is stored and \<open>value\<close> becomes \<open>value >> 8\<close>, a 32-bit
  shift.  The loop leaves at the first \<open>value === 0\<close> with \<open>lastIndex = i - 1\<close>.
\<close>

function numToBuf_loop :: "buffer \<Rightarrow> int \<Rightarrow> int \<Rightarrow> int \<Rightarrow> buffer \<times> int" where
  "numToBuf_loop buffer lastIndex i v =
     (if i \<le> lastIndex
      then (if v = 0 then (buffer, i - 1)
            else numToBuf_loop (buf_store buffer i (js_rem v 256)) lastIndex (i + 1) (js_sar v 8))
      else (buffer, lastIndex))"
  by pat_completeness auto
termination
  by (relation "measure (\<lambda>(buffer, lastIndex, i, v). nat (lastIndex + 1 - i))") auto

declare numToBuf_loop.simps [simp del]

definition numToBuf :: "int \<Rightarrow> nat \<Rightarrow> buffer" where
  "numToBuf v bufferSize =
     (case numToBuf_loop (replicate bufferSize 0) (int bufferSize - 1) 0 v of
        (buffer, lastIndex) \<Rightarrow> buf_slice buffer 0 (lastIndex + 1))"

text \<open>
  \<open>Number(v)\<close> for a non-negative BigInt: exact below \<open>2^53\<close>, otherwise the nearest
  number with 53 significant bits, ties to the even one.  The model covers the finite
  range: from \<open>2^1024\<close> on JavaScript gives \<open>Infinity\<close>, which only a size field
  of 129 bytes or more can reach.
\<close>

function bit_length :: "int \<Rightarrow> nat" where
  "bit_length n = (if n \<le> 0 then 0 else Suc (bit_length (n div 2)))"
  by pat_completeness auto
termination
  by (relation "measure nat") auto

declare bit_length.simps [simp del]

definition js_Number :: "int \<Rightarrow> int" where
  "js_Number v =
     (if v < 2 ^ 53 then v
      else (let e = bit_length v - 53;
                q = v div 2 ^ e;
                r = v mod 2 ^ e
            in (if 2 ^ (e - 1) < r \<or> (r = 2 ^ (e - 1) \<and> odd q) then q + 1 else q) * 2 ^ e))"

text \<open>\<open>bufToNum\<close> reads the bytes from the last to the first into a BigInt.\<close>

definition bufToNum :: "buffer \<Rightarrow> int" where
  "bufToNum buffer = js_Number (fold (\<lambda>b v. v * 256 + uint b) (rev buffer) 0)"

section \<open>CID text forms\<close>

text \<open>Both arms of the length test in the three encoders do the same.\<close>

definition encodeCIDWithPrefixZ :: "buffer \<Rightarrow> string" where
  "encodeCIDWithPrefixZ bytes =
     (if length bytes = 38 then CHR ''z'' # encodeBase58BTC bytes
      else CHR ''z'' # encodeBase58BTC bytes)"

definition encodeCIDWithPrefixU :: "buffer \<Rightarrow> string" where
  "encodeCIDWithPrefixU bytes =
     (if length bytes = 38 then CHR ''u'' # encodeBase64URL bytes
      else CHR ''u'' # encodeBase64URL bytes)"

definition encodeCIDWithPrefixB :: "buffer \<Rightarrow> string" where
  "encodeCIDWithPrefixB bytes =
     (if length bytes = 38 then CHR ''b'' # toLowerCase (encodeBase32RFC bytes)
      else CHR ''b'' # toLowerCase (encodeBase32RFC bytes))"

text \<open>The decoders for \<open>z\<close> and \<open>u\<close> test \<open>cid[0]\<close> twice and end with a
  \<open>throw\<close>.\<close>

definition decodeCIDWithPrefixZ :: "string \<Rightarrow> error + buffer" where
  "decodeCIDWithPrefixZ cid =
     (if char0 cid = Some CHR ''z'' then decodeBase58BTC (substring1 cid)
      else if char0 cid \<noteq> Some CHR ''z'' then decodeBase58BTC cid
      else Inl (Error ''Invalid input address''))"

definition decodeCIDWithPrefixU :: "string \<Rightarrow> error + buffer" where
  "decodeCIDWithPrefixU cid =
     (if char0 cid = Some CHR ''u'' then decodeBase64URL (substring1 cid)
      else if char0 cid \<noteq> Some CHR ''u'' then decodeBase64URL cid
      else Inl (Error ''Invalid u CID format''))"

text \<open>\<open>/[A-Z]/.test(s)\<close> and \<open>/[a-z]/.test(s)\<close>.\<close>

definition hasUpper :: "string \<Rightarrow> bool" where
  "hasUpper s = list_ex isUpper s"

definition hasLower :: "string \<Rightarrow> bool" where
  "hasLower s = list_ex isLower s"

definition decodeCIDWithPrefixB :: "string \<Rightarrow> error + buffer" where
  "decodeCIDWithPrefixB cid0 =
     (let cid1 = (if char0 cid0 = Some CHR ''B'' \<and> hasUpper cid0
                  then substring1 (toLowerCase cid0) else cid0);
          cid2 = (if char0 cid1 = Some CHR ''b'' \<and> hasLower cid1 then substring1 cid1 else cid1);
          cid3 = (if hasLower cid2 then toUpperCase cid2 else cid2)
      in decodeBase32RFC cid3)"

section \<open>CID binary format\<close>

definition cidTypeRaw :: byte where "cidTypeRaw = 0x26"
definition cidTypeMetadataMedia :: byte where "cidTypeMetadataMedia = 0xc5"
definition cidTypeMetadataWebApp :: byte where "cidTypeMetadataWebApp = 0x59"
definition cidTypeResolver :: byte where "cidTypeResolver = 0x25"
definition cidTypeUserIdentity :: byte where "cidTypeUserIdentity = 0x77"
definition cidTypeBridge :: byte where "cidTypeBridge = 0x3a"
definition cidTypeEncrypted :: byte where "cidTypeEncrypted = 0xae"
definition mhashBlake3Default :: byte where "mhashBlake3Default = 0x1f"

text \<open>The registered CID type tags of \<open>constants.js\<close>.\<close>

definition cidTypes :: "byte list" where
  "cidTypes = [cidTypeRaw, cidTypeMetadataMedia, cidTypeMetadataWebApp, cidTypeResolver,
               cidTypeUserIdentity, cidTypeBridge, cidTypeEncrypted]"

definition generateMHashFromB3hash :: "buffer \<Rightarrow> buffer" where
  "generateMHashFromB3hash b3hash = replicate 1 mhashBlake3Default @ b3hash"

definition extractB3hashFromMHash :: "buffer \<Rightarrow> buffer" where
  "extractB3hashFromMHash mHash = buf_slice_from mHash 1"

text \<open>\<open>generateCIDFromMHash\<close> reads the size of the file at \<open>filePath\<close> from the file
  system; the model takes the size read.\<close>

definition generateCIDFromMHash :: "buffer \<Rightarrow> int \<Rightarrow> buffer" where
  "generateCIDFromMHash mHash fileSize =
     replicate 1 cidTypeRaw @ mHash @ numToBuf fileSize 16"

text \<open>
  The search for the hash size: \<open>while (hashSize !== 33) { i++; hashSize = cid.length - i; }\<close>.
  The loop has no bound, so it is a partial function: \<open>None\<close> is a run that never ends.
\<close>

partial_function (option) hashSize_loop :: "int \<Rightarrow> int \<Rightarrow> int \<Rightarrow> int option" where
  "hashSize_loop len i hashSize =
     (if hashSize \<noteq> 33 then hashSize_loop len (i + 1) (len - (i + 1)) else Some hashSize)"

declare hashSize_loop.simps [code]

definition extractMHashFromCID :: "buffer \<Rightarrow> buffer option" where
  "extractMHashFromCID cid =
     (let cidTypeSize = 1
      in case hashSize_loop (int (length cid)) 0 (int (length cid) - cidTypeSize) of
           None \<Rightarrow> None
         | Some hashSize \<Rightarrow> Some (buf_slice cid cidTypeSize (cidTypeSize + hashSize)))"

definition extractRawSizeFromCID :: "buffer \<Rightarrow> int" where
  "extractRawSizeFromCID cid =
     (let sliceLength = (if 34 \<le> length cid then 34 else 33)
      in bufToNum (buf_slice_from cid sliceLength))"

definition extractB3hashFromCID :: "buffer \<Rightarrow> buffer option" where
  "extractB3hashFromCID cid =
     (let cidTypeSize = 1
      in case hashSize_loop (int (length cid)) 0 (int (length cid) - cidTypeSize) of
           None \<Rightarrow> None
         | Some hashSize \<Rightarrow>
             Some (extractB3hashFromMHash (buf_slice cid cidTypeSize (cidTypeSize + hashSize))))"

text \<open>\<open>buf.toString('hex')\<close>\<close>

definition hexDigits :: string where
  "hexDigits = ''0123456789abcdef''"

definition toHex :: "buffer \<Rightarrow> string" where
  "toHex buf = concat (map (\<lambda>b. [hexDigits ! unat (drop_bit 4 b), hexDigits ! unat (b AND 15)]) buf)"

text \<open>
  A call that may throw or never return: \<open>None\<close> is a run that never ends,
  \<open>Some (Inl e)\<close> a thrown error, \<open>Some (Inr v)\<close> a returned value.
\<close>

type_synonym 'a js = "(error + 'a) option"

definition js_bind :: "'a js \<Rightarrow> ('a \<Rightarrow> 'b js) \<Rightarrow> 'b js" where
  "js_bind m f = (case m of None \<Rightarrow> None | Some (Inl e) \<Rightarrow> Some (Inl e) | Some (Inr v) \<Rightarrow> f v)"

text \<open>
  \<open>convertS5CidToB3hashHex\<close>: three \<open>if\<close> statements in sequence set \<open>b3hash\<close>
  (\<open>null\<close> is \<open>None\<close>); each decodes, reads the size, and extracts the hash only when
  the size is not 0.  A \<open>null\<close> hash at the end throws.
\<close>

definition b3hash_of :: "(string \<Rightarrow> error + buffer) \<Rightarrow> string \<Rightarrow> buffer option js" where
  "b3hash_of decode cid =
     (case decode cid of
        Inl e \<Rightarrow> Some (Inl e)
      | Inr cidBytes \<Rightarrow>
          (let b3FilesSize = extractRawSizeFromCID cidBytes
           in if b3FilesSize \<noteq> 0
              then (case extractB3hashFromCID cidBytes of
                      None \<Rightarrow> None
                    | Some h \<Rightarrow> Some (Inr (Some h)))
              else Some (Inr None)))"

definition convertS5CidToB3hashHex :: "string \<Rightarrow> string js" where
  "convertS5CidToB3hashHex cid =
     js_bind (if char0 cid = Some CHR ''z'' then b3hash_of decodeCIDWithPrefixZ cid
              else Some (Inr None)) (\<lambda>h1.
     js_bind (if char0 cid = Some CHR ''u'' then b3hash_of decodeCIDWithPrefixU cid
              else Some (Inr h1)) (\<lambda>h2.
     js_bind (if char0 cid = Some CHR ''b'' then b3hash_of decodeCIDWithPrefixB cid
              else Some (Inr h2)) (\<lambda>h3.
     (case h3 of
        Some b3hash \<Rightarrow> Some (Inr (toHex b3hash))
      | None \<Rightarrow> Some (Inl (Error ''Invalid CID input address''))))))"

section \<open>Conversions for the download directory\<close>









section \<open>The text forms, by prefix\<close>

text \<open>\<open>encodeCID\<close> and \<open>decodeCID\<close> select the encoder and the decoder of a
  prefix among the three pairs above.\<close>

datatype prefix = PrefixZ | PrefixU | PrefixB

definition encodeCID :: "prefix \<Rightarrow> buffer \<Rightarrow> string" where
  "encodeCID p bytes =
     (case p of
        PrefixZ \<Rightarrow> encodeCIDWithPrefixZ bytes
      | PrefixU \<Rightarrow> encodeCIDWithPrefixU bytes
      | PrefixB \<Rightarrow> encodeCIDWithPrefixB bytes)"

definition decodeCID :: "prefix \<Rightarrow> string \<Rightarrow> error + buffer" where
  "decodeCID p cid =
     (case p of
        PrefixZ \<Rightarrow> decodeCIDWithPrefixZ cid
      | PrefixU \<Rightarrow> decodeCIDWithPrefixU cid
      | PrefixB \<Rightarrow> decodeCIDWithPrefixB cid)"

section \<open>Numbers behind the digits\<close>

text \<open>The quantities the loops of the codecs preserve; the proofs below are stated
  with them.\<close>

text \<open>The number a list of digits stands for, least significant digit first.\<close>

fun le_val :: "int \<Rightarrow> int list \<Rightarrow> int" where
  "le_val b [] = 0"
| "le_val b (d # ds) = d + b * le_val b ds"

definition digits_below :: "int \<Rightarrow> int list \<Rightarrow> bool" where
  "digits_below b ds = list_all (\<lambda>d. 0 \<le> d \<and> d < b) ds"

text \<open>The number of a buffer, most significant byte first.\<close>

definition be_val :: "buffer \<Rightarrow> int" where
  "be_val bytes = fold (\<lambda>b v. v * 256 + uint b) bytes 0"

text \<open>A digit list without a most significant zero.\<close>

definition canon :: "int list \<Rightarrow> bool" where
  "canon bs = (bs = [] \<or> last bs \<noteq> 0)"

text \<open>The low \<open>bits\<close> bits of \<open>value\<close>, as a number.\<close>

definition pend :: "nat \<Rightarrow> 32 word \<Rightarrow> int" where
  "pend bits v = take_bit bits (uint v)"

text \<open>The number a base32 text stands for, most significant character first.\<close>

definition str_val :: "string \<Rightarrow> int" where
  "str_val s = fold (\<lambda>c a. a * 32 + indexOf BASE32_ALPHABET c) s 0"

text \<open>The six-bit groups of a buffer, as the runtime's encoder forms them.\<close>

fun b64_sextets :: "buffer \<Rightarrow> byte list" where
  "b64_sextets (a # b # c # rest) =
     [drop_bit 2 a, push_bit 4 (a AND 3) OR drop_bit 4 b,
      push_bit 2 (b AND 15) OR drop_bit 6 c, c AND 63] @ b64_sextets rest"
| "b64_sextets [a, b] =
     [drop_bit 2 a, push_bit 4 (a AND 3) OR drop_bit 4 b, push_bit 2 (b AND 15)]"
| "b64_sextets [a] = [drop_bit 2 a, push_bit 4 (a AND 3)]"
| "b64_sextets [] = []"

section \<open>The prefix decoders never reach their last throw\<close>

lemma b58d_loop_error:
  "b58d_loop bytes s = Inl e \<Longrightarrow> e = Error ''Invalid Base58Bitcoin string''"
  by (induction s arbitrary: bytes) (auto simp: Let_def split: if_splits prod.splits)

lemma decodeBase58BTC_error:
  "decodeBase58BTC s = Inl e \<Longrightarrow> e = Error ''Invalid Base58Bitcoin string''"
  by (auto simp: decodeBase58BTC_def split: sum.splits dest: b58d_loop_error)

text \<open>
  C10.  When the first character of the text is not the expected prefix,
  \<open>decodeCIDWithPrefixZ\<close> and \<open>decodeCIDWithPrefixU\<close> hand the whole text to the base
  codec and return what it returns.  For no text at all is the result the error of the
  last \<open>throw\<close> statement of either function.
\<close>

theorem decodeCID_ZU_trailing_throw_unreachable:
  "(char0 cid \<noteq> Some CHR ''z'' \<longrightarrow> decodeCIDWithPrefixZ cid = decodeBase58BTC cid) \<and>
   (char0 cid \<noteq> Some CHR ''u'' \<longrightarrow> decodeCIDWithPrefixU cid = decodeBase64URL cid) \<and>
   decodeCIDWithPrefixZ cid \<noteq> Inl (Error ''Invalid input address'') \<and>
   decodeCIDWithPrefixU cid \<noteq> Inl (Error ''Invalid u CID format'')"
proof -
  have z: "decodeCIDWithPrefixZ cid \<noteq> Inl (Error ''Invalid input address'')"
    unfolding decodeCIDWithPrefixZ_def
    using decodeBase58BTC_error [of cid] decodeBase58BTC_error [of "substring1 cid"] by auto
  have u: "decodeCIDWithPrefixU cid \<noteq> Inl (Error ''Invalid u CID format'')"
    unfolding decodeCIDWithPrefixU_def by (simp add: decodeBase64URL_def Let_def)
  show ?thesis using z u
    by (simp add: decodeCIDWithPrefixZ_def decodeCIDWithPrefixU_def)
qed

theorem decodeCID_ZU_trailing_throw_unreachable_witness:
  "char0 ''21'' \<noteq> Some CHR ''z'' \<and> decodeCIDWithPrefixZ ''21'' = decodeBase58BTC ''21'' \<and>
   char0 ''21'' \<noteq> Some CHR ''u'' \<and> decodeCIDWithPrefixU ''21'' = decodeBase64URL ''21''"
  using decodeCID_ZU_trailing_throw_unreachable [of "''21''"] by (simp add: char0_def)

section \<open>The download-directory conversion on URLs\<close>




















section \<open>Unpacking short buffers\<close>

lemma bufToNum_Nil: "bufToNum [] = 0"
  by (simp add: bufToNum_def js_Number_def)

lemma hashSize_loop_Some:
  assumes "hashSize_loop len i hashSize = Some y"
  shows "hashSize = 33 \<or> i < len - 33"
proof (rule hashSize_loop.raw_induct
        [where P = "\<lambda>len i hashSize y. hashSize = 33 \<or> i < len - 33", OF _ assms], goal_cases)
  case (1 f len i hashSize y)
  show ?case
  proof (cases "hashSize = 33")
    case True
    then show ?thesis by simp
  next
    case False
    with 1(2) have "f len (i + 1) (len - (i + 1)) = Some y" by simp
    from 1(1) [OF this] show ?thesis by auto
  qed
qed

lemma hashSize_loop_short:
  assumes "length cid < 34"
  shows "hashSize_loop (int (length cid)) 0 (int (length cid) - 1) = None"
proof (rule ccontr)
  assume "hashSize_loop (int (length cid)) 0 (int (length cid) - 1) \<noteq> None"
  then obtain y where "hashSize_loop (int (length cid)) 0 (int (length cid) - 1) = Some y"
    by auto
  from hashSize_loop_Some [OF this] assms show False by auto
qed

text \<open>On a buffer shorter than 34 bytes the search for the hash size never ends.\<close>

lemma extract_hash_short_never_returns:
  "length cid < 34 \<Longrightarrow> extractMHashFromCID cid = None \<and> extractB3hashFromCID cid = None"
  by (simp add: extractMHashFromCID_def extractB3hashFromCID_def hashSize_loop_short)

lemma hashSize_loop_reaches:
  "1 \<le> i \<Longrightarrow> i \<le> len - 33 \<Longrightarrow> hashSize_loop len i (len - i) = Some 33"
proof (induction "nat (len - 33 - i)" arbitrary: i)
  case 0
  then have "len - i = 33" by simp
  then show ?case by (subst hashSize_loop.simps) simp
next
  case (Suc n)
  then have ne: "len - i \<noteq> 33" and n: "n = nat (len - 33 - (i + 1))" and le: "i + 1 \<le> len - 33"
    by auto
  have "hashSize_loop len (i + 1) (len - (i + 1)) = Some 33"
    using Suc(1) [OF n] Suc(3) le by simp
  with ne show ?case by (subst hashSize_loop.simps) simp
qed

text \<open>On a buffer of at least 34 bytes the search ends with 33.\<close>

lemma hashSize_loop_long:
  assumes "34 \<le> length cid"
  shows "hashSize_loop (int (length cid)) 0 (int (length cid) - 1) = Some 33"
proof (cases "length cid = 34")
  case True
  then show ?thesis by (subst hashSize_loop.simps) simp
next
  case False
  with assms have "1 \<le> int (length cid) - 33" by simp
  from hashSize_loop_reaches [OF _ this] have "hashSize_loop (int (length cid)) 1 (int (length cid) - 1) = Some 33"
    by simp
  with False show ?thesis by (subst hashSize_loop.simps) simp
qed

lemma extractMHashFromCID_long:
  "34 \<le> length cid \<Longrightarrow> extractMHashFromCID cid = Some (take 33 (drop 1 cid))"
  by (simp add: extractMHashFromCID_def hashSize_loop_long buf_slice_def slice_pos_def)

lemma extractB3hashFromCID_long:
  "34 \<le> length cid \<Longrightarrow> extractB3hashFromCID cid = Some (take 32 (drop 2 cid))"
  by (simp add: extractB3hashFromCID_def hashSize_loop_long buf_slice_def slice_pos_def
      extractB3hashFromMHash_def buf_slice_from_def drop_take numeral_2_eq_2)

text \<open>
  C4, as stated: every unpack operation fails with an error on a buffer shorter than 34
  bytes.  The source has no such error.  On the 33 zero bytes \<open>extractRawSizeFromCID\<close>
  returns 0.
\<close>

theorem extractRawSizeFromCID_short_counterexample:
  "length (replicate 33 (0 :: byte)) < 34 \<and> extractRawSizeFromCID (replicate 33 0) = 0"
  by (simp add: extractRawSizeFromCID_def buf_slice_from_def slice_pos_def bufToNum_Nil)

text \<open>
  C4, amended: on every buffer shorter than 34 bytes \<open>extractRawSizeFromCID\<close> raises
  nothing and returns 0 (it reads the size from offset 33, where nothing is left).
\<close>

theorem extractRawSizeFromCID_short:
  "length cid < 34 \<Longrightarrow> extractRawSizeFromCID cid = 0"
  by (simp add: extractRawSizeFromCID_def buf_slice_from_def slice_pos_def bufToNum_Nil)

theorem extractRawSizeFromCID_short_witness:
  "length [0x26, 0x1f :: byte] < 34 \<and> extractRawSizeFromCID [0x26, 0x1f] = 0"
  using extractRawSizeFromCID_short [of "[0x26, 0x1f]"] by simp

section \<open>The concrete scenario\<close>

text \<open>
  C7, as stated: the CID packed from 32 zero bytes, the default BLAKE3 tag, the raw type
  tag and size 5 has 36 bytes.  It has 35: one type byte, 33 bytes of multihash, one
  byte of size.
\<close>

theorem scenario_length_counterexample:
  "length (generateCIDFromMHash (generateMHashFromB3hash (replicate 32 0)) 5) \<noteq> 36"
  by code_simp

text \<open>
  C7, amended: the packed CID has exactly 35 bytes; its \<open>z\<close> form starts with \<open>z\<close>;
  decoding that text gives the packed bytes back; the size read from the CID is 5.
\<close>

theorem scenario_raw_cid:
  "(let cid = generateCIDFromMHash (generateMHashFromB3hash (replicate 32 0)) 5
    in cid = [cidTypeRaw, mhashBlake3Default] @ replicate 32 0 @ [5] \<and>
       length cid = 35 \<and>
       char0 (encodeCIDWithPrefixZ cid) = Some CHR ''z'' \<and>
       decodeCIDWithPrefixZ (encodeCIDWithPrefixZ cid) = Inr cid \<and>
       extractRawSizeFromCID cid = 5)"
  by code_simp

section \<open>The size codec beyond 31 bits\<close>

text \<open>
  C2 at \<open>s = 2^32\<close>: \<open>value >> 8\<close> works on the low 32 bits of \<open>value\<close>, which are all
  0, so the loop stops after one byte and the size read back is 0.  At \<open>s = 2^31\<close> the
  shifted value is negative, never reaches 0, and all 16 bytes are written.
\<close>

theorem numToBuf_roundtrip_fails:
  "numToBuf (2 ^ 32) 16 = [0] \<and> bufToNum (numToBuf (2 ^ 32) 16) = 0 \<and>
   numToBuf (2 ^ 31) 16 = [0, 0, 0, 128] @ replicate 12 255 \<and>
   bufToNum (numToBuf (2 ^ 31) 16) = 2 ^ 128"
  by code_simp


section \<open>No digest from a CID of size 0\<close>

lemma b3hash_of_zero:
  "decode cid = Inr cidBytes \<Longrightarrow> extractRawSizeFromCID cidBytes = 0
     \<Longrightarrow> b3hash_of decode cid = Some (Inr None)"
  by (simp add: b3hash_of_def)

text \<open>
  C6.  Let a text start with \<open>z\<close>, \<open>u\<close> or \<open>b\<close>, let the decoder of that prefix
  return the bytes \<open>cidBytes\<close>, and let the size read from them be 0.  Then
  \<open>convertS5CidToB3hashHex\<close> throws (the source's error for this case is
  \<open>Error('Invalid CID input address')\<close>) and returns no hex string.
\<close>

theorem convertS5CidToB3hashHex_zero_size:
  assumes "(char0 cid = Some CHR ''z'' \<and> decodeCIDWithPrefixZ cid = Inr cidBytes) \<or>
           (char0 cid = Some CHR ''u'' \<and> decodeCIDWithPrefixU cid = Inr cidBytes) \<or>
           (char0 cid = Some CHR ''b'' \<and> decodeCIDWithPrefixB cid = Inr cidBytes)"
    and "extractRawSizeFromCID cidBytes = 0"
  shows "convertS5CidToB3hashHex cid = Some (Inl (Error ''Invalid CID input address''))"
  using assms(1)
proof (elim disjE conjE)
  assume "char0 cid = Some CHR ''z''" "decodeCIDWithPrefixZ cid = Inr cidBytes"
  then show ?thesis
    by (simp add: convertS5CidToB3hashHex_def js_bind_def b3hash_of_zero [OF _ assms(2)])
next
  assume "char0 cid = Some CHR ''u''" "decodeCIDWithPrefixU cid = Inr cidBytes"
  then show ?thesis
    by (simp add: convertS5CidToB3hashHex_def js_bind_def b3hash_of_zero [OF _ assms(2)])
next
  assume "char0 cid = Some CHR ''b''" "decodeCIDWithPrefixB cid = Inr cidBytes"
  then show ?thesis
    by (simp add: convertS5CidToB3hashHex_def js_bind_def b3hash_of_zero [OF _ assms(2)])
qed

lemma zero_size_cid_texts:
  "generateCIDFromMHash (generateMHashFromB3hash (replicate 32 0)) 0
     = [0x26, 0x1f] @ replicate 32 0"
  "decodeCIDWithPrefixZ ''zrz2f1wy84NqbAMQnvRtTTwz4eoiWx18ywfp1wUfZMGme39''
     = Inr ([0x26, 0x1f] @ replicate 32 0)"
  "decodeCIDWithPrefixU ''uJh8AAAAAAAAAAAAAAAAAAAAAAAAAAAAAAAAAAAAAAAAAAA''
     = Inr ([0x26, 0x1f] @ replicate 32 0)"
  "decodeCIDWithPrefixB ''beypqaaaaaaaaaaaaaaaaaaaaaaaaaaaaaaaaaaaaaaaaaaaaaaaaaaa''
     = Inr ([0x26, 0x1f] @ replicate 32 0)"
  "extractRawSizeFromCID ([0x26, 0x1f] @ replicate 32 0) = 0"
  by code_simp+

theorem convertS5CidToB3hashHex_zero_size_witness:
  "char0 ''zrz2f1wy84NqbAMQnvRtTTwz4eoiWx18ywfp1wUfZMGme39'' = Some CHR ''z'' \<and>
   decodeCIDWithPrefixZ ''zrz2f1wy84NqbAMQnvRtTTwz4eoiWx18ywfp1wUfZMGme39''
     = Inr (generateCIDFromMHash (generateMHashFromB3hash (replicate 32 0)) 0) \<and>
   extractRawSizeFromCID (generateCIDFromMHash (generateMHashFromB3hash (replicate 32 0)) 0) = 0 \<and>
   convertS5CidToB3hashHex ''zrz2f1wy84NqbAMQnvRtTTwz4eoiWx18ywfp1wUfZMGme39''
     = Some (Inl (Error ''Invalid CID input address'')) \<and>
   convertS5CidToB3hashHex ''uJh8AAAAAAAAAAAAAAAAAAAAAAAAAAAAAAAAAAAAAAAAAAA''
     = Some (Inl (Error ''Invalid CID input address'')) \<and>
   convertS5CidToB3hashHex ''beypqaaaaaaaaaaaaaaaaaaaaaaaaaaaaaaaaaaaaaaaaaaaaaaaaaaa''
     = Some (Inl (Error ''Invalid CID input address''))"
proof -
  let ?c = "[0x26, 0x1f] @ replicate 32 (0 :: byte)"
  have z: "char0 ''zrz2f1wy84NqbAMQnvRtTTwz4eoiWx18ywfp1wUfZMGme39'' = Some CHR ''z''"
    and u: "char0 ''uJh8AAAAAAAAAAAAAAAAAAAAAAAAAAAAAAAAAAAAAAAAAAA'' = Some CHR ''u''"
    and b: "char0 ''beypqaaaaaaaaaaaaaaaaaaaaaaaaaaaaaaaaaaaaaaaaaaaaaaaaaaa'' = Some CHR ''b''"
    by (simp_all add: char0_def)
  have rz: "convertS5CidToB3hashHex ''zrz2f1wy84NqbAMQnvRtTTwz4eoiWx18ywfp1wUfZMGme39''
     = Some (Inl (Error ''Invalid CID input address''))"
    by (rule convertS5CidToB3hashHex_zero_size [of _ ?c])
       (use z zero_size_cid_texts(2,5) in blast)+
  have ru: "convertS5CidToB3hashHex ''uJh8AAAAAAAAAAAAAAAAAAAAAAAAAAAAAAAAAAAAAAAAAAA''
     = Some (Inl (Error ''Invalid CID input address''))"
    by (rule convertS5CidToB3hashHex_zero_size [of _ ?c])
       (use u zero_size_cid_texts(3,5) in blast)+
  have rb: "convertS5CidToB3hashHex ''beypqaaaaaaaaaaaaaaaaaaaaaaaaaaaaaaaaaaaaaaaaaaaaaaaaaaa''
     = Some (Inl (Error ''Invalid CID input address''))"
    by (rule convertS5CidToB3hashHex_zero_size [of _ ?c])
       (use b zero_size_cid_texts(4,5) in blast)+
  show ?thesis
    unfolding zero_size_cid_texts(1)
    using z zero_size_cid_texts(2,5) rz ru rb by (intro conjI)
qed

section \<open>Correctness of the three codecs\<close>

subsection \<open>JavaScript integer operators on small non-negative numbers\<close>

lemma js_quot_nonneg: "0 \<le> x \<Longrightarrow> x < 2 ^ 31 \<Longrightarrow> js_quot x 58 = x div 58"
proof -
  assume a: "0 \<le> x" "x < 2 ^ 31"
  have "x div 58 \<le> x" "0 \<le> x div 58" using a(1) by presburger+
  then have "sint (word_of_int (x div 58) :: 32 word) = x div 58"
    using a(2) by (intro sint32_id) linarith+
  then show ?thesis
    using a(1) by (cases "x = 0") (simp_all add: js_quot_def js_ToInt32_def)
qed

lemma js_rem_nonneg: "0 \<le> x \<Longrightarrow> 0 < y \<Longrightarrow> js_rem x y = x mod y"
  by (cases "x = 0") (simp_all add: js_rem_def)

lemma js_shl_8_small: "0 \<le> x \<Longrightarrow> x < 2 ^ 22 \<Longrightarrow> js_shl x 8 = x * 256"
proof -
  assume a: "0 \<le> x" "x < 2 ^ 22"
  have "push_bit 8 (word_of_int x :: 32 word) = word_of_int (x * 256)"
    by (simp add: push_bit_eq_mult)
  moreover have "sint (word_of_int (x * 256) :: 32 word) = x * 256"
    using a by (intro sint32_id) simp_all
  ultimately show ?thesis by (simp add: js_shl_def)
qed

lemma js_sar_8_nonneg: "0 \<le> x \<Longrightarrow> x < 2 ^ 31 \<Longrightarrow> js_sar x 8 = x div 256"
  by (simp add: js_sar_def sint_signed_drop_bit_eq drop_bit_eq_div sint32_id)

lemma js_and_255: "js_and x 255 = x mod 256"
proof -
  have m: "(255 :: 32 word) = mask 8" by (simp add: mask_eq_exp_minus_1)
  have "(word_of_int x :: 32 word) AND word_of_int 255 = word_of_int (take_bit 8 x)"
    using and_mask_wi [of x 8, where 'a = 32] m by simp
  moreover have "sint (word_of_int (take_bit 8 x) :: 32 word) = take_bit 8 x"
  proof (rule sint32_id)
    have "- (2 ^ 31) \<le> (0::int)" by simp
    also have "0 \<le> take_bit 8 x" by simp
    finally show "- (2 ^ 31) \<le> take_bit 8 x" .
    have "take_bit 8 x < (2 ^ 8 :: int)" by (rule take_bit_int_less_exp)
    then show "take_bit 8 x < 2 ^ 31" by simp
  qed
  ultimately show ?thesis by (simp add: js_and_def take_bit_eq_mod)
qed

subsection \<open>Digit lists as numbers\<close>

lemma digits_below_simps [simp]:
  "digits_below b []"
  "digits_below b (d # ds) = (0 \<le> d \<and> d < b \<and> digits_below b ds)"
  "digits_below b (xs @ ys) = (digits_below b xs \<and> digits_below b ys)"
  by (auto simp: digits_below_def)

lemma le_val_append: "le_val b (xs @ ys) = le_val b xs + b ^ length xs * le_val b ys"
  by (induction xs) (simp_all add: algebra_simps)

lemma le_val_nonneg: "0 \<le> b \<Longrightarrow> digits_below b ds \<Longrightarrow> 0 \<le> le_val b ds"
  by (induction ds) simp_all

subsection \<open>The base58 encoder computes the number of the bytes\<close>

lemma b58e_carry_spec:
  assumes "digits_below (2 ^ 14) ds" "0 \<le> c" "c < 2 ^ 14"
  shows "case b58e_carry ds c of (ds', c') \<Rightarrow>
           length ds' = length ds \<and> digits_below 58 ds' \<and> 0 \<le> c' \<and> c' < 2 ^ 14 \<and>
           le_val 58 ds' + 58 ^ length ds * c' = le_val 58 ds + c"
  using assms
proof (induction ds arbitrary: c)
  case Nil
  then show ?case by simp
next
  case (Cons d ds)
  let ?d' = "d + c"
  from Cons.prems have r: "0 \<le> ?d'" "?d' < 2 ^ 15" by simp_all
  then have q: "js_quot ?d' 58 = ?d' div 58" by (intro js_quot_nonneg) simp_all
  have m: "js_rem ?d' 58 = ?d' mod 58" using r(1) by (intro js_rem_nonneg) simp_all
  have c1: "0 \<le> ?d' div 58" "?d' div 58 < 2 ^ 14" using r by simp_all
  from Cons.prems(1) have "digits_below (2 ^ 14) ds" by simp
  from Cons.IH [OF this c1]
  obtain ds' c' where s: "b58e_carry ds (?d' div 58) = (ds', c')"
    and l: "length ds' = length ds" and b: "digits_below 58 ds'"
    and c2: "0 \<le> c'" "c' < 2 ^ 14"
    and v: "le_val 58 ds' + 58 ^ length ds * c' = le_val 58 ds + ?d' div 58"
    by (cases "b58e_carry ds (?d' div 58)") auto
  have "?d' mod 58 + 58 * le_val 58 ds' + 58 * 58 ^ length ds * c'
        = ?d' mod 58 + 58 * (le_val 58 ds' + 58 ^ length ds * c')"
    by (simp add: algebra_simps)
  also have "\<dots> = ?d' mod 58 + 58 * (le_val 58 ds + ?d' div 58)" by (simp only: v)
  also have "\<dots> = d + 58 * le_val 58 ds + c" by (simp add: algebra_simps)
  finally show ?case
    using s l b c2 by (simp add: q m Let_def)
qed

lemma b58e_push_spec:
  assumes "0 \<le> c" "c < 2 ^ 31"
  shows "\<exists>ds2. b58e_push ds c = ds @ ds2 \<and> digits_below 58 ds2 \<and> le_val 58 ds2 = c"
  using assms
proof (induction ds c rule: b58e_push.induct)
  case (1 digits carry)
  show ?case
  proof (cases "carry = 0")
    case True
    then have "b58e_push digits carry = digits @ []"
      by (subst b58e_push.simps) simp
    moreover have "digits_below 58 []" "le_val 58 [] = carry" using True by simp_all
    ultimately show ?thesis by blast
  next
    case False
    have q: "js_quot carry 58 = carry div 58" using 1(2,3) by (rule js_quot_nonneg)
    have m: "js_rem carry 58 = carry mod 58" using 1(2) by (intro js_rem_nonneg) simp_all
    have "0 \<le> carry div 58" "carry div 58 < 2 ^ 31" using 1(2,3) by simp_all
    from 1(1) [OF False, unfolded q m, OF this]
    obtain ds2 where e: "b58e_push (digits @ [carry mod 58]) (carry div 58)
                          = (digits @ [carry mod 58]) @ ds2"
      and b: "digits_below 58 ds2" and v: "le_val 58 ds2 = carry div 58"
      by blast
    have "b58e_push digits carry = digits @ (carry mod 58 # ds2)"
      using False e by (subst b58e_push.simps) (simp add: q m)
    moreover have "digits_below 58 (carry mod 58 # ds2)" using b 1(2) by simp
    moreover have "le_val 58 (carry mod 58 # ds2) = carry" using v by simp
    ultimately show ?thesis by blast
  qed
qed

lemma b58e_byte_spec:
  assumes "ds \<noteq> []" "digits_below 58 ds"
  shows "b58e_byte ds b \<noteq> [] \<and> digits_below 58 (b58e_byte ds b) \<and>
         le_val 58 (b58e_byte ds b) = 256 * le_val 58 ds + uint b"
proof -
  from assms(1) obtain d0 rest where ds: "ds = d0 # rest" by (cases ds) auto
  have sh: "map (\<lambda>d. js_shl d 8) xs = map (\<lambda>d. d * 256) xs" if "digits_below 58 xs" for xs
    using that by (induction xs) (simp_all add: js_shl_8_small)
  have sb: "digits_below (2 ^ 14) (map (\<lambda>d. d * 256) xs)" if "digits_below 58 xs" for xs
    using that by (induction xs) simp_all
  have sv: "le_val 58 (map (\<lambda>d. d * 256) xs) = 256 * le_val 58 xs" for xs
    by (induction xs) (simp_all add: algebra_simps)
  let ?added = "(d0 * 256 + uint b) # map (\<lambda>d. d * 256) rest"
  have ub: "0 \<le> uint b" "uint b < 256" using uint_lt2p [of b] by simp_all
  have ab: "digits_below (2 ^ 14) ?added"
    using assms(2) ub sb [of rest] by (simp add: ds)
  have av: "le_val 58 ?added = 256 * le_val 58 ds + uint b"
    by (simp add: ds sv algebra_simps)
  from b58e_carry_spec [OF ab, of 0]
  obtain ds' c' where s: "b58e_carry ?added 0 = (ds', c')"
    and l: "length ds' = length ?added" and b: "digits_below 58 ds'"
    and c2: "0 \<le> c'" "c' < 2 ^ 14"
    and v: "le_val 58 ds' + 58 ^ length ?added * c' = le_val 58 ?added"
    by (cases "b58e_carry ?added 0") auto
  have "c' < 2 ^ 31" using c2(2) by simp
  from b58e_push_spec [OF c2(1) this, of ds']
  obtain ds2 where e: "b58e_push ds' c' = ds' @ ds2"
    and b2: "digits_below 58 ds2" and v2: "le_val 58 ds2 = c'"
    by blast
  have "map (\<lambda>d. js_shl d 8) ds = (d0 * 256) # map (\<lambda>d. d * 256) rest"
    using sh [OF assms(2)] by (simp add: ds)
  then have r: "b58e_byte ds b = ds' @ ds2"
    unfolding b58e_byte_def Let_def by (simp only: list.case s prod.case e)
  have "ds' \<noteq> []" using l by auto
  moreover have "le_val 58 (ds' @ ds2) = 256 * le_val 58 ds + uint b"
    using v v2 l av by (simp add: le_val_append)
  ultimately show ?thesis using b b2 by (simp add: r)
qed

lemma b58e_fold_spec:
  assumes "ds \<noteq> []" "digits_below 58 ds"
  shows "fold (\<lambda>b ds. b58e_byte ds b) bytes ds \<noteq> [] \<and>
         digits_below 58 (fold (\<lambda>b ds. b58e_byte ds b) bytes ds) \<and>
         le_val 58 (fold (\<lambda>b ds. b58e_byte ds b) bytes ds)
           = fold (\<lambda>b v. v * 256 + uint b) bytes (le_val 58 ds)"
  using assms
proof (induction bytes arbitrary: ds)
  case Nil
  then show ?case by simp
next
  case (Cons b bytes)
  from b58e_byte_spec [OF Cons.prems, of b] Cons.IH [of "b58e_byte ds b"]
  show ?case by (simp add: mult.commute)
qed

lemma pop_zeros_snoc0: "pop_zeros (xs @ [0]) = pop_zeros xs"
  by (subst pop_zeros.simps) simp

lemma pop_zeros_eq: "pop_zeros ds = rev (dropWhile (\<lambda>d. d = 0) (rev ds))"
proof (induction ds rule: pop_zeros.induct)
  case (1 digits)
  show ?case
  proof (cases "digits \<noteq> [] \<and> last digits = 0")
    case True
    then obtain xs where d: "digits = xs @ [0]" by (metis append_butlast_last_id)
    then have "pop_zeros xs = rev (dropWhile (\<lambda>d. d = 0) (rev xs))"
      using 1 [OF True] by simp
    then show ?thesis by (simp add: d pop_zeros_snoc0)
  next
    case False
    then have "dropWhile (\<lambda>d. d = 0) (rev digits) = rev digits"
      by (cases "rev digits") (auto simp: last_rev hd_rev)
    with False show ?thesis by (subst pop_zeros.simps) auto
  qed
qed

subsection \<open>The base58 decoder computes the shortest byte list of the number\<close>

lemma b58d_carry_spec:
  assumes "digits_below 256 bs" "0 \<le> v" "v < 2 ^ 14"
  shows "case b58d_carry bs v of (bs', v') \<Rightarrow>
           length bs' = length bs \<and> digits_below 256 bs' \<and> 0 \<le> v' \<and> v' < 2 ^ 14 \<and>
           le_val 256 bs' + 256 ^ length bs * v' = 58 * le_val 256 bs + v"
  using assms
proof (induction bs arbitrary: v)
  case Nil
  then show ?case by simp
next
  case (Cons b bs)
  let ?v1 = "v + b * 58"
  from Cons.prems have r: "0 \<le> ?v1" "?v1 < 2 ^ 15" by simp_all
  then have q: "js_sar ?v1 8 = ?v1 div 256" by (intro js_sar_8_nonneg) simp_all
  have c1: "0 \<le> ?v1 div 256" "?v1 div 256 < 2 ^ 14" using r by simp_all
  from Cons.prems(1) have "digits_below 256 bs" by simp
  from Cons.IH [OF this c1]
  obtain bs' v' where s: "b58d_carry bs (?v1 div 256) = (bs', v')"
    and l: "length bs' = length bs" and b: "digits_below 256 bs'"
    and c2: "0 \<le> v'" "v' < 2 ^ 14"
    and e: "le_val 256 bs' + 256 ^ length bs * v' = 58 * le_val 256 bs + ?v1 div 256"
    by (cases "b58d_carry bs (?v1 div 256)") auto
  have "?v1 mod 256 + 256 * le_val 256 bs' + 256 * 256 ^ length bs * v'
        = ?v1 mod 256 + 256 * (le_val 256 bs' + 256 ^ length bs * v')"
    by (simp add: algebra_simps)
  also have "\<dots> = ?v1 mod 256 + 256 * (58 * le_val 256 bs + ?v1 div 256)" by (simp only: e)
  also have "\<dots> = 58 * (b + 256 * le_val 256 bs) + v" by (simp add: algebra_simps)
  finally show ?case
    using s l b c2 by (simp add: q js_and_255 Let_def)
qed

lemma b58d_push_spec:
  assumes "0 \<le> v" "v < 2 ^ 31"
  shows "\<exists>bs2. b58d_push bs v = bs @ bs2 \<and> digits_below 256 bs2 \<and> le_val 256 bs2 = v \<and>
               canon bs2"
  using assms
proof (induction bs v rule: b58d_push.induct)
  case (1 bytes v)
  show ?case
  proof (cases "0 < v")
    case False
    with 1(2) have "v = 0" by simp
    then have "b58d_push bytes v = bytes @ []"
      by (subst b58d_push.simps) simp
    moreover have "digits_below 256 []" "le_val 256 [] = v" "canon []"
      using \<open>v = 0\<close> by (simp_all add: canon_def)
    ultimately show ?thesis by blast
  next
    case True
    have q: "js_sar v 8 = v div 256" using 1(2,3) by (rule js_sar_8_nonneg)
    have "0 \<le> v div 256" "v div 256 < 2 ^ 31" using 1(2,3) by simp_all
    from 1(1) [OF True, unfolded q js_and_255, OF this]
    obtain bs2 where e: "b58d_push (bytes @ [v mod 256]) (v div 256)
                          = (bytes @ [v mod 256]) @ bs2"
      and b: "digits_below 256 bs2" and l: "le_val 256 bs2 = v div 256" and c: "canon bs2"
      by blast
    have "b58d_push bytes v = bytes @ (v mod 256 # bs2)"
      using True e by (subst b58d_push.simps) (simp add: q js_and_255)
    moreover have "digits_below 256 (v mod 256 # bs2)" using b by simp
    moreover have "le_val 256 (v mod 256 # bs2) = v" using l by simp
    moreover have "canon (v mod 256 # bs2)"
    proof (cases "bs2 = []")
      case True
      with l have "v div 256 = 0" by simp
      with \<open>0 < v\<close> have "v mod 256 \<noteq> 0" by presburger
      with True show ?thesis by (simp add: canon_def)
    next
      case False
      with c show ?thesis by (simp add: canon_def)
    qed
    ultimately show ?thesis by blast
  qed
qed

lemma le_val_less: "digits_below 256 xs \<Longrightarrow> le_val 256 xs < 256 ^ length xs"
proof (induction xs)
  case Nil
  then show ?case by simp
next
  case (Cons x xs)
  then have "x \<le> 255" "le_val 256 xs + 1 \<le> 256 ^ length xs" by simp_all
  moreover have "x \<le> 255 \<Longrightarrow> l + 1 \<le> p \<Longrightarrow> x + 256 * l < 256 * p" for l p :: int
    by linarith
  ultimately have "x + 256 * le_val 256 xs < 256 * 256 ^ length xs" by blast
  then show ?case by simp
qed

lemma canon_ge:
  assumes "xs \<noteq> []" "digits_below 256 xs" "canon xs"
  shows "256 ^ (length xs - 1) \<le> le_val 256 xs"
proof -
  from assms(1) obtain ys l where x: "xs = ys @ [l]" by (metis rev_exhaust)
  with assms(2,3) have "1 \<le> l" "digits_below 256 ys" by (simp_all add: canon_def)
  then have "256 ^ length ys * 1 \<le> le_val 256 ys + 256 ^ length ys * l"
    using le_val_nonneg [of 256 ys] by (simp add: mult_left_mono add_increasing)
  then show ?thesis by (simp add: x le_val_append)
qed

lemma not_canon_less:
  assumes "xs \<noteq> []" "digits_below 256 xs" "\<not> canon xs"
  shows "le_val 256 xs < 256 ^ (length xs - 1)"
proof -
  from assms(1) obtain ys l where x: "xs = ys @ [l]" by (metis rev_exhaust)
  with assms(2,3) have "l = 0" "digits_below 256 ys" by (simp_all add: canon_def)
  then show ?thesis using le_val_less [of ys] by (simp add: x le_val_append)
qed

lemma b58d_step_spec:
  assumes "digits_below 256 bs" "canon bs" "0 \<le> d" "d < 58"
  shows "case b58d_carry bs d of (bs', v') \<Rightarrow>
           digits_below 256 (b58d_push bs' v') \<and> canon (b58d_push bs' v') \<and>
           le_val 256 (b58d_push bs' v') = 58 * le_val 256 bs + d"
proof -
  have "d < 2 ^ 14" using assms(4) by simp
  from b58d_carry_spec [OF assms(1,3) this]
  obtain bs' v' where s: "b58d_carry bs d = (bs', v')"
    and l: "length bs' = length bs" and b: "digits_below 256 bs'"
    and c2: "0 \<le> v'" "v' < 2 ^ 14"
    and e: "le_val 256 bs' + 256 ^ length bs * v' = 58 * le_val 256 bs + d"
    by (cases "b58d_carry bs d") auto
  have "v' < 2 ^ 31" using c2(2) by simp
  from b58d_push_spec [OF c2(1) this, of bs']
  obtain bs2 where p: "b58d_push bs' v' = bs' @ bs2"
    and b2: "digits_below 256 bs2" and l2: "le_val 256 bs2 = v'" and cn: "canon bs2"
    by blast
  have v: "le_val 256 (bs' @ bs2) = 58 * le_val 256 bs + d"
    using e l l2 by (simp add: le_val_append)
  have "canon (bs' @ bs2)"
  proof (cases "bs2 = []")
    case False
    with cn show ?thesis by (simp add: canon_def)
  next
    case True
    show ?thesis
    proof (rule ccontr)
      assume n: "\<not> canon (bs' @ bs2)"
      then have ne: "bs' \<noteq> []" "bs \<noteq> []" using True l by (auto simp: canon_def)
      from n True have "le_val 256 bs' < 256 ^ (length bs' - 1)"
        using not_canon_less [OF ne(1) b] by simp
      moreover have "256 ^ (length bs - 1) \<le> le_val 256 bs"
        using canon_ge [OF ne(2) assms(1,2)] .
      moreover have "le_val 256 bs' = 58 * le_val 256 bs + d" using v True by simp
      moreover have "(0::int) < 256 ^ (length bs - 1)" by simp
      moreover have "p \<le> L \<Longrightarrow> 0 < p \<Longrightarrow> 0 \<le> d \<Longrightarrow> \<not> 58 * L + d < p" for p L :: int
        by linarith
      ultimately show False using l assms(3) by metis
    qed
  qed
  then show ?thesis using s p b b2 v by simp
qed

subsection \<open>Characters and their positions in an alphabet\<close>

lemma indexOf_from_notin: "c \<notin> set s \<Longrightarrow> indexOf_from k s c = - 1"
  by (induction s arbitrary: k) auto

lemma indexOf_from_in:
  "c \<in> set s \<Longrightarrow> 0 \<le> k \<Longrightarrow> k \<le> indexOf_from k s c \<and> indexOf_from k s c < k + int (length s)"
proof (induction s arbitrary: k)
  case Nil
  then show ?case by simp
next
  case (Cons x s)
  show ?case
  proof (cases "x = c")
    case True
    then show ?thesis by simp
  next
    case False
    with Cons.prems have "c \<in> set s" "0 \<le> k + 1" by simp_all
    from Cons.IH [OF this] False show ?thesis by simp
  qed
qed

lemma indexOf_from_nth:
  "distinct s \<Longrightarrow> i < length s \<Longrightarrow> indexOf_from k s (s ! i) = k + int i"
proof (induction s arbitrary: k i)
  case Nil
  then show ?case by simp
next
  case (Cons x s)
  show ?case
  proof (cases i)
    case 0
    then show ?thesis by simp
  next
    case (Suc j)
    with Cons.prems have "distinct s" "j < length s" "s ! j \<noteq> x" by auto
    with Cons.IH [of j "k + 1"] Suc show ?thesis by simp
  qed
qed

lemma indexOf_nth: "distinct s \<Longrightarrow> i < length s \<Longrightarrow> indexOf s (s ! i) = int i"
  by (simp add: indexOf_def indexOf_from_nth)

lemma indexOf_notin: "c \<notin> set s \<Longrightarrow> indexOf s c = - 1"
  by (simp add: indexOf_def indexOf_from_notin)

lemma indexOf_in: "c \<in> set s \<Longrightarrow> 0 \<le> indexOf s c \<and> indexOf s c < int (length s)"
  using indexOf_from_in [of c s 0] by (simp add: indexOf_def)

lemma ALPHABET_distinct: "distinct ALPHABET"
  by (simp add: ALPHABET_def)

lemma ALPHABET_length: "length ALPHABET = 58"
  by (simp add: ALPHABET_def)

lemma b58d_loop_spec:
  assumes "set cs \<subseteq> set ALPHABET" "digits_below 256 bs" "canon bs"
  shows "\<exists>res. b58d_loop bs cs = Inr res \<and> digits_below 256 res \<and> canon res \<and>
               le_val 256 res = fold (\<lambda>c v. v * 58 + indexOf ALPHABET c) cs (le_val 256 bs)"
  using assms
proof (induction cs arbitrary: bs)
  case Nil
  then show ?case by simp
next
  case (Cons c cs)
  let ?d = "indexOf ALPHABET c"
  from Cons.prems(1) have "c \<in> set ALPHABET" by simp
  from indexOf_in [OF this] have d: "0 \<le> ?d" "?d < 58" by (simp_all add: ALPHABET_length)
  then have ne: "?d \<noteq> - 1" by simp
  obtain bs' v' where s: "b58d_carry bs ?d = (bs', v')" by (cases "b58d_carry bs ?d") auto
  from b58d_step_spec [OF Cons.prems(2,3) d] s
  have st: "digits_below 256 (b58d_push bs' v')" "canon (b58d_push bs' v')"
    "le_val 256 (b58d_push bs' v') = 58 * le_val 256 bs + ?d" by simp_all
  from Cons.prems(1) have "set cs \<subseteq> set ALPHABET" by simp
  from Cons.IH [OF this st(1,2)] show ?case
    using ne s by (simp add: Let_def st(3) mult.commute)
qed

lemma canon_unique:
  assumes "digits_below 256 xs" "digits_below 256 ys" "canon xs" "canon ys"
    "le_val 256 xs = le_val 256 ys"
  shows "xs = ys"
  using assms
proof (induction xs arbitrary: ys)
  case Nil
  show ?case
  proof (rule ccontr)
    assume "[] \<noteq> ys"
    then have "ys \<noteq> []" by simp
    from canon_ge [OF this Nil(2,4)] Nil(5) have "(256::int) ^ (length ys - 1) \<le> 0" by simp
    moreover have "(0::int) < 256 ^ (length ys - 1)" by simp
    ultimately show False by linarith
  qed
next
  case (Cons x xs)
  have "ys \<noteq> []"
  proof
    assume "ys = []"
    with canon_ge [OF _ Cons.prems(1,3)] Cons.prems(5)
    have "(256::int) ^ (length (x # xs) - 1) \<le> 0" by simp
    moreover have "(0::int) < 256 ^ (length (x # xs) - 1)" by simp
    ultimately show False by linarith
  qed
  then obtain y ys' where ys: "ys = y # ys'" by (cases ys) auto
  from Cons.prems(1,2,5) have r: "0 \<le> x" "x < 256" "0 \<le> y" "y < 256"
    "x + 256 * le_val 256 xs = y + 256 * le_val 256 ys'"
    by (simp_all add: ys)
  have "(x + 256 * le_val 256 xs) mod 256 = (y + 256 * le_val 256 ys') mod 256"
    by (simp only: r(5))
  then have "x mod 256 = y mod 256" by simp
  with r(1-4) have xy: "x = y" by simp
  with r(5) have "x = y" "le_val 256 xs = le_val 256 ys'" by simp_all
  moreover have "canon xs" "canon ys'"
    using Cons.prems(3,4) by (auto simp: canon_def ys split: if_splits)
  moreover have "digits_below 256 xs" "digits_below 256 ys'"
    using Cons.prems(1,2) by (simp_all add: ys)
  ultimately show ?case using Cons.IH [of ys'] by (simp add: ys)
qed

lemma le_val_fold_rev: "fold (\<lambda>d v. v * b + d) (rev ds) 0 = le_val b ds"
  by (induction ds) (simp_all add: mult.commute)

lemma be_val_le_val: "be_val bytes = le_val 256 (rev (map uint bytes))"
proof -
  have "fold (\<lambda>b v. v * 256 + uint b) bytes v0 = fold (\<lambda>d v. v * 256 + d) (map uint bytes) v0" for v0
    by (induction bytes arbitrary: v0) simp_all
  then show ?thesis
    using le_val_fold_rev [of 256 "rev (map uint bytes)"] by (simp add: be_val_def)
qed

lemma digits_below_uint: "digits_below 256 (map uint (bytes :: buffer))"
proof (induction bytes)
  case Nil
  then show ?case by simp
next
  case (Cons b bytes)
  have "uint b < 256" using uint_lt2p [of b] by simp
  with Cons show ?case by simp
qed

lemma digits_below_rev: "digits_below b (rev xs) = digits_below b xs"
  by (simp add: digits_below_def)

lemma le_val_dropWhile_rev:
  "le_val b (rev (dropWhile (\<lambda>d. d = 0) (rev ds))) = le_val b ds"
proof (induction ds rule: rev_induct)
  case Nil
  then show ?case by simp
next
  case (snoc x xs)
  then show ?case by (simp add: le_val_append)
qed

lemma digits_below_dropWhile: "digits_below b xs \<Longrightarrow> digits_below b (dropWhile P xs)"
  unfolding digits_below_def by (induction xs) simp_all

lemma str_at_in: "0 \<le> d \<Longrightarrow> d < int (length s) \<Longrightarrow> str_at s d = [s ! nat d]"
  by (simp add: str_at_def)

lemma concat_str_at:
  "digits_below (int (length s)) ds \<Longrightarrow> concat (map (str_at s) ds) = map (\<lambda>d. s ! nat d) ds"
  by (induction ds) (simp_all add: str_at_in)

lemma fold_indexOf_digits:
  assumes "distinct s" "digits_below (int (length s)) ds"
  shows "fold (\<lambda>c v. v * b + indexOf s c) (map (\<lambda>d. s ! nat d) ds) v0
         = fold (\<lambda>d v. v * b + d) ds v0"
  using assms(2)
proof (induction ds arbitrary: v0)
  case Nil
  then show ?case by simp
next
  case (Cons d ds)
  then have "nat d < length s" "int (nat d) = d" by (simp_all add: nat_less_iff)
  with indexOf_nth [OF assms(1), of "nat d"] have "indexOf s (s ! nat d) = d" by simp
  with Cons show ?case by simp
qed

text \<open>What decoding an encoded buffer gives: the buffer without its leading zero bytes.\<close>

lemma decode_encode_Base58BTC:
  "decodeBase58BTC (encodeBase58BTC bytes) = Inr (dropWhile (\<lambda>b. b = 0) bytes)"
proof -
  let ?digits = "fold (\<lambda>b ds. b58e_byte ds b) bytes [0]"
  let ?ds = "pop_zeros ?digits"
  let ?out = "dropWhile (\<lambda>b. b = 0) bytes"
  from b58e_fold_spec [of "[0]" bytes]
  have f: "digits_below 58 ?digits" "le_val 58 ?digits = be_val bytes"
    by (simp_all add: be_val_def)
  have db: "digits_below 58 ?ds"
    using f(1) by (simp add: pop_zeros_eq digits_below_rev digits_below_dropWhile)
  have dv: "le_val 58 ?ds = be_val bytes"
    using f(2) by (simp add: pop_zeros_eq le_val_dropWhile_rev)
  have db': "digits_below (int (length ALPHABET)) (rev ?ds)"
    using db by (simp add: ALPHABET_length digits_below_rev)
  have enc: "encodeBase58BTC bytes = map (\<lambda>d. ALPHABET ! nat d) (rev ?ds)"
    unfolding encodeBase58BTC_def Let_def using concat_str_at [OF db'] .
  have sub: "set (encodeBase58BTC bytes) \<subseteq> set ALPHABET"
  proof -
    have "nat d < length ALPHABET" if "d \<in> set (rev ?ds)" for d
      using that db' by (auto simp: digits_below_def list_all_iff)
    then show ?thesis unfolding enc by (auto simp: nth_mem)
  qed
  from b58d_loop_spec [OF sub, of "[]"]
  obtain res where r: "b58d_loop [] (encodeBase58BTC bytes) = Inr res"
    and rb: "digits_below 256 res" and rc: "canon res"
    and rv: "le_val 256 res = fold (\<lambda>c v. v * 58 + indexOf ALPHABET c) (encodeBase58BTC bytes) 0"
    by (auto simp: canon_def)
  have "le_val 256 res = fold (\<lambda>d v. v * 58 + d) (rev ?ds) 0"
    unfolding rv enc using fold_indexOf_digits [OF ALPHABET_distinct db'] .
  also have "\<dots> = be_val bytes" by (simp add: le_val_fold_rev dv)
  also have "\<dots> = be_val ?out"
  proof -
    have "fold (\<lambda>b v. v * 256 + uint b) xs 0 = fold (\<lambda>b v. v * 256 + uint b) (dropWhile (\<lambda>b. b = 0) xs) 0"
      for xs :: buffer
      by (induction xs) simp_all
    then show ?thesis by (simp add: be_val_def)
  qed
  also have "\<dots> = le_val 256 (rev (map uint ?out))" by (rule be_val_le_val)
  finally have v: "le_val 256 res = le_val 256 (rev (map uint ?out))" .
  have co: "canon (rev (map uint ?out))"
  proof (cases "?out = []")
    case True
    then show ?thesis by (simp add: canon_def)
  next
    case False
    then have "hd ?out \<noteq> 0" using hd_dropWhile [of "\<lambda>b. b = 0" bytes] by simp
    with False show ?thesis by (simp add: canon_def last_rev hd_map unsigned_eq_0_iff)
  qed
  have "res = rev (map uint ?out)"
    using rb _ rc co v by (rule canon_unique) (simp add: digits_below_rev digits_below_uint)
  then have "map word_of_int (rev res) = ?out" by (simp add: comp_def)
  then show ?thesis by (simp add: decodeBase58BTC_def r)
qed

subsection \<open>The pending bits of the base32 loops\<close>

lemma pend_bounds: "0 \<le> pend bits v" "pend bits v < 2 ^ bits"
  by (simp_all add: pend_def)

lemma pend_0 [simp]: "pend 0 v = 0"
  by (simp add: pend_def)

lemma pend_push_byte:
  fixes d :: byte
  assumes "bits + 8 \<le> 32"
  shows "pend (bits + 8) (push_bit 8 v OR ucast d) = pend bits v * 256 + uint d"
proof -
  have "take_bit (bits + 8) (uint (push_bit 8 v OR ucast d :: 32 word))
        = concat_bit 8 (uint d) (take_bit bits (uint v))"
    using assms
    by (intro bit_eqI)
       (auto simp: bit_simps unsigned_or_eq unsigned_push_bit_eq unsigned_ucast_eq
             dest: bit_imp_le_length)
  also have "\<dots> = take_bit 8 (uint d) + push_bit 8 (take_bit bits (uint v))"
    by (rule concat_bit_eq)
  also have "take_bit 8 (uint d) = uint d"
    using uint_lt2p [of d] by (simp add: take_bit_int_eq_self)
  finally show ?thesis by (simp add: pend_def push_bit_eq_mult)
qed

lemma pend_push_index:
  assumes "bits + 5 \<le> 32" "0 \<le> i" "i < 32"
  shows "pend (bits + 5) (push_bit 5 v OR word_of_int i) = pend bits v * 32 + i"
proof -
  have i: "take_bit 5 i = i" using assms(2,3) by (simp add: take_bit_int_eq_self)
  have "uint (word_of_int i :: 32 word) = take_bit 5 i"
    using assms(2,3) by (simp add: i uint_word_of_int take_bit_eq_mod [symmetric] take_bit_int_eq_self)
  then have "take_bit (bits + 5) (uint (push_bit 5 v OR word_of_int i :: 32 word))
        = concat_bit 5 (take_bit 5 i) (take_bit bits (uint v))"
    using assms(1)
    by (intro bit_eqI)
       (auto simp: bit_simps unsigned_or_eq unsigned_push_bit_eq)
  also have "\<dots> = take_bit 5 (take_bit 5 i) + push_bit 5 (take_bit bits (uint v))"
    by (rule concat_bit_eq)
  finally show ?thesis by (simp add: pend_def push_bit_eq_mult i)
qed

lemma pend_split: "pend (k + m) v = drop_bit k (pend (k + m) v) * 2 ^ k + pend k v"
proof -
  have "push_bit k (drop_bit k (pend (k + m) v)) + take_bit k (pend (k + m) v) = pend (k + m) v"
    by (rule bits_ident)
  moreover have "take_bit k (pend (k + m) v) = pend k v"
    by (simp add: pend_def)
  ultimately show ?thesis by (simp add: push_bit_eq_mult)
qed

lemma uint_top5: "uint (drop_bit k v AND 31) = drop_bit k (pend (k + 5) v)" for v :: "32 word"
proof -
  have m: "(31 :: 32 word) = mask 5" by (simp add: mask_eq_exp_minus_1)
  show ?thesis
    unfolding m pend_def
    by (intro bit_eqI)
       (auto simp: bit_simps unsigned_and_eq unsigned_drop_bit_eq dest: bit_imp_le_length)
qed

lemma uint_top8: "uint (drop_bit k v AND 255) = drop_bit k (pend (k + 8) v)" for v :: "32 word"
proof -
  have m: "(255 :: 32 word) = mask 8" by (simp add: mask_eq_exp_minus_1)
  show ?thesis
    unfolding m pend_def
    by (intro bit_eqI)
       (auto simp: bit_simps unsigned_and_eq unsigned_drop_bit_eq dest: bit_imp_le_length)
qed

lemma uint_last5:
  fixes v :: "32 word"
  assumes "bits \<le> 5"
  shows "uint (push_bit (5 - bits) v AND 31) = pend bits v * 2 ^ (5 - bits)"
proof -
  have m: "(31 :: 32 word) = mask 5" by (simp add: mask_eq_exp_minus_1)
  have "uint (push_bit (5 - bits) v AND mask 5) = push_bit (5 - bits) (take_bit bits (uint v))"
    using assms
    by (intro bit_eqI)
       (auto simp: bit_simps unsigned_and_eq unsigned_push_bit_eq dest: bit_imp_le_length)
  then show ?thesis by (simp add: m pend_def push_bit_eq_mult)
qed

subsection \<open>The base32 encoder\<close>

lemma str_val_snoc: "str_val (s @ [c]) = str_val s * 32 + indexOf BASE32_ALPHABET c"
  by (simp add: str_val_def)

lemma BASE32_distinct: "distinct BASE32_ALPHABET"
  by (simp add: BASE32_ALPHABET_def)

lemma BASE32_length: "length BASE32_ALPHABET = 32"
  by (simp add: BASE32_ALPHABET_def)

lemma charAt_BASE32:
  assumes "0 \<le> i" "i < 32"
  shows "charAt BASE32_ALPHABET i = [BASE32_ALPHABET ! nat i]"
    and "indexOf BASE32_ALPHABET (BASE32_ALPHABET ! nat i) = i"
    and "BASE32_ALPHABET ! nat i \<in> set BASE32_ALPHABET"
proof -
  have n: "nat i < length BASE32_ALPHABET" using assms by (simp add: BASE32_length nat_less_iff)
  show "charAt BASE32_ALPHABET i = [BASE32_ALPHABET ! nat i]"
    using assms by (simp add: charAt_def BASE32_length)
  show "indexOf BASE32_ALPHABET (BASE32_ALPHABET ! nat i) = i"
    using indexOf_nth [OF BASE32_distinct n] assms(1) by simp
  show "BASE32_ALPHABET ! nat i \<in> set BASE32_ALPHABET"
    using n by (rule nth_mem)
qed

lemma drop_bit_pend_bounds:
  "0 \<le> drop_bit k (pend (k + m) v)" "drop_bit k (pend (k + m) v) < 2 ^ m"
proof -
  have e: "drop_bit k (pend (k + m) v) = take_bit m (drop_bit k (uint v))"
    by (simp add: pend_def drop_bit_take_bit)
  show "0 \<le> drop_bit k (pend (k + m) v)" unfolding e by simp
  show "drop_bit k (pend (k + m) v) < 2 ^ m" unfolding e by (rule take_bit_int_less_exp)
qed

lemma b32e_while_spec:
  assumes "bits \<le> 32" "set result \<subseteq> set BASE32_ALPHABET"
  shows "case b32e_while result bits v of (result', bits') \<Rightarrow>
           bits' < 5 \<and> 5 * length result' + bits' = 5 * length result + bits \<and>
           str_val result' * 2 ^ bits' + pend bits' v = str_val result * 2 ^ bits + pend bits v \<and>
           set result' \<subseteq> set BASE32_ALPHABET"
  using assms
proof (induction result bits v rule: b32e_while.induct)
  case (1 result bits v)
  show ?case
  proof (cases "5 \<le> bits")
    case False
    then show ?thesis using 1(3) by (subst b32e_while.simps) simp
  next
    case True
    define k where "k = bits - 5"
    have bk: "bits = k + 5" using True by (simp add: k_def)
    have km: "k mod 32 = k" using 1(2) by (simp add: k_def)
    let ?i = "drop_bit k (pend (k + 5) v)"
    have ib: "0 \<le> ?i" "?i < 32" using drop_bit_pend_bounds [of k 5 v] by simp_all
    let ?c = "BASE32_ALPHABET ! nat ?i"
    have ch: "charAt BASE32_ALPHABET (uint (drop_bit (k mod 32) v AND 31)) = [?c]"
      using charAt_BASE32(1) [OF ib] by (simp add: km uint_top5)
    have un: "b32e_while result bits v = b32e_while (result @ [?c]) k v"
      using True by (subst b32e_while.simps) (simp only: k_def [symmetric] ch if_True)
    have "k \<le> 32" using 1(2) by (simp add: k_def)
    moreover have "set (result @ [?c]) \<subseteq> set BASE32_ALPHABET"
      using 1(3) charAt_BASE32(3) [OF ib] by simp
    ultimately have ih: "case b32e_while (result @ [?c]) k v of (result', bits') \<Rightarrow>
           bits' < 5 \<and> 5 * length result' + bits' = 5 * length (result @ [?c]) + k \<and>
           str_val result' * 2 ^ bits' + pend bits' v = str_val (result @ [?c]) * 2 ^ k + pend k v \<and>
           set result' \<subseteq> set BASE32_ALPHABET"
      using 1(1) [OF True] unfolding k_def [symmetric] ch by simp
    have "str_val (result @ [?c]) * 2 ^ k + pend k v
          = str_val result * (32 * 2 ^ k) + (?i * 2 ^ k + pend k v)"
      by (simp add: str_val_snoc charAt_BASE32(2) [OF ib] algebra_simps)
    also have "?i * 2 ^ k + pend k v = pend (k + 5) v" by (rule pend_split [symmetric])
    also have "(32::int) * 2 ^ k = 2 ^ (k + 5)" by (simp add: power_add)
    finally have "str_val (result @ [?c]) * 2 ^ k + pend k v
          = str_val result * 2 ^ bits + pend bits v"
      by (simp add: bk)
    with ih show ?thesis unfolding un by (auto simp: bk)
  qed
qed

text \<open>The value of everything read, after each byte.\<close>

lemma b32e_step_spec:
  assumes "bits < 5" "set result \<subseteq> set BASE32_ALPHABET"
  shows "case b32e_step (result, bits, v) d of (result', bits', v') \<Rightarrow>
           bits' < 5 \<and> 5 * length result' + bits' = 5 * length result + bits + 8 \<and>
           str_val result' * 2 ^ bits' + pend bits' v'
             = (str_val result * 2 ^ bits + pend bits v) * 256 + uint d \<and>
           set result' \<subseteq> set BASE32_ALPHABET"
proof -
  let ?v' = "push_bit 8 v OR ucast d"
  have b: "bits + 8 \<le> 32" using assms(1) by simp
  from b32e_while_spec [OF b assms(2), of ?v']
  obtain result' bits' where w: "b32e_while result (bits + 8) ?v' = (result', bits')"
    and r: "bits' < 5" "5 * length result' + bits' = 5 * length result + (bits + 8)"
      "str_val result' * 2 ^ bits' + pend bits' ?v'
         = str_val result * 2 ^ (bits + 8) + pend (bits + 8) ?v'"
      "set result' \<subseteq> set BASE32_ALPHABET"
    by (cases "b32e_while result (bits + 8) ?v'") auto
  have "str_val result * 2 ^ (bits + 8) + pend (bits + 8) ?v'
        = (str_val result * 2 ^ bits + pend bits v) * 256 + uint d"
    by (simp add: pend_push_byte [OF b] power_add algebra_simps)
  with r show ?thesis by (simp add: b32e_step_def Let_def w)
qed

lemma b32e_fold_spec:
  assumes "bits < 5" "set result \<subseteq> set BASE32_ALPHABET"
  shows "case fold (\<lambda>d st. b32e_step st d) data (result, bits, v) of (result', bits', v') \<Rightarrow>
           bits' < 5 \<and> 5 * length result' + bits' = 5 * length result + bits + 8 * length data \<and>
           str_val result' * 2 ^ bits' + pend bits' v'
             = fold (\<lambda>b a. a * 256 + uint b) data (str_val result * 2 ^ bits + pend bits v) \<and>
           set result' \<subseteq> set BASE32_ALPHABET"
  using assms
proof (induction data arbitrary: result bits v)
  case Nil
  then show ?case by simp
next
  case (Cons d data)
  from b32e_step_spec [OF Cons.prems, of v d]
  obtain r1 b1 v1 where s: "b32e_step (result, bits, v) d = (r1, b1, v1)"
    and p: "b1 < 5" "5 * length r1 + b1 = 5 * length result + bits + 8"
      "str_val r1 * 2 ^ b1 + pend b1 v1 = (str_val result * 2 ^ bits + pend bits v) * 256 + uint d"
      "set r1 \<subseteq> set BASE32_ALPHABET"
    by (cases "b32e_step (result, bits, v) d") auto
  from Cons.IH [OF p(1,4), of v1] p(2,3) show ?case
    by (simp add: s split: prod.splits)
qed

text \<open>The encoded text: its characters, its length and its number.\<close>

lemma encodeBase32RFC_spec:
  "\<exists>pad. pad < 5 \<and> 5 * length (encodeBase32RFC data) = 8 * length data + pad \<and>
         str_val (encodeBase32RFC data) = be_val data * 2 ^ pad \<and>
         set (encodeBase32RFC data) \<subseteq> set BASE32_ALPHABET"
proof -
  from b32e_fold_spec [of 0 "[]" data 0]
  obtain result bits v where f: "fold (\<lambda>d st. b32e_step st d) data ([], 0, 0) = (result, bits, v)"
    and p: "bits < 5" "5 * length result + bits = 8 * length data"
      "str_val result * 2 ^ bits + pend bits v = be_val data"
      "set result \<subseteq> set BASE32_ALPHABET"
    by (cases "fold (\<lambda>d st. b32e_step st d) data ([], 0, 0)") (auto simp: str_val_def be_val_def)
  show ?thesis
  proof (cases "0 < bits")
    case False
    then have "encodeBase32RFC data = result" by (simp add: encodeBase32RFC_def f)
    with p False show ?thesis by (intro exI [of _ 0]) simp
  next
    case True
    let ?i = "pend bits v * 2 ^ (5 - bits)"
    have m: "(5 - bits) mod 32 = 5 - bits" by simp
    have u: "uint (push_bit (5 - bits) v AND 31) = ?i"
      using p(1) by (intro uint_last5) simp
    have "pend bits v < 2 ^ bits" by (rule pend_bounds)
    then have "?i < 2 ^ bits * 2 ^ (5 - bits)" by (simp add: mult_strict_right_mono)
    also have "(2::int) ^ bits * 2 ^ (5 - bits) = 2 ^ 5"
      using p(1) by (simp add: power_add [symmetric])
    finally have ib: "0 \<le> ?i" "?i < 32" using pend_bounds(1) [of bits v] by simp_all
    let ?c = "BASE32_ALPHABET ! nat ?i"
    have e: "encodeBase32RFC data = result @ [?c]"
      using True by (simp add: encodeBase32RFC_def f m u charAt_BASE32(1) [OF ib])
    have "str_val (result @ [?c]) = str_val result * 32 + ?i"
      by (simp add: str_val_snoc charAt_BASE32(2) [OF ib])
    also have "(32::int) = 2 ^ bits * 2 ^ (5 - bits)"
      using p(1) by (simp add: power_add [symmetric])
    also have "str_val result * (2 ^ bits * 2 ^ (5 - bits)) + ?i
               = (str_val result * 2 ^ bits + pend bits v) * 2 ^ (5 - bits)"
      by (simp add: algebra_simps)
    finally have "str_val (result @ [?c]) = be_val data * 2 ^ (5 - bits)" by (simp add: p(3))
    moreover have "5 * length (result @ [?c]) = 8 * length data + (5 - bits)"
      using p(1,2) by simp
    moreover have "set (result @ [?c]) \<subseteq> set BASE32_ALPHABET"
      using p(4) charAt_BASE32(3) [OF ib] by simp
    moreover have "5 - bits < 5" using True by simp
    ultimately show ?thesis unfolding e by blast
  qed
qed

subsection \<open>The base32 decoder\<close>

lemma be_val_snoc: "be_val (xs @ [b]) = be_val xs * 256 + uint b"
  by (simp add: be_val_def)

lemma b32d_step_spec:
  assumes "c \<in> set BASE32_ALPHABET" "bits < 8" "8 * index + bits + 5 \<le> 8 * length res"
  shows "case b32d_step (res, bits, v, index) c of (res', bits', v', index') \<Rightarrow>
           bits' < 8 \<and> 8 * index' + bits' = 8 * index + bits + 5 \<and>
           length res' = length res \<and>
           be_val (take index' res') * 2 ^ bits' + pend bits' v'
             = (be_val (take index res) * 2 ^ bits + pend bits v) * 32
               + indexOf BASE32_ALPHABET c"
proof -
  let ?i = "indexOf BASE32_ALPHABET c"
  let ?v' = "push_bit 5 v OR word_of_int ?i"
  from indexOf_in [OF assms(1)] have ib: "0 \<le> ?i" "?i < 32" by (simp_all add: BASE32_length)
  have b: "bits + 5 \<le> 32" using assms(2) by simp
  have pv: "pend (bits + 5) ?v' = pend bits v * 32 + ?i"
    using b ib by (rule pend_push_index)
  have tot: "be_val (take index res) * 2 ^ (bits + 5) + pend (bits + 5) ?v'
             = (be_val (take index res) * 2 ^ bits + pend bits v) * 32 + ?i"
    by (simp add: pv power_add algebra_simps)
  show ?thesis
  proof (cases "8 \<le> bits + 5")
    case False
    then show ?thesis using tot by (simp add: b32d_step_def Let_def)
  next
    case True
    define k where "k = bits + 5 - 8"
    have bk: "bits + 5 = k + 8" using True by (simp add: k_def)
    have km: "k mod 32 = k" using assms(2) by (simp add: k_def)
    define b :: byte where "b = ucast (drop_bit k ?v' AND 255)"
    have il: "index < length res" using assms(3) True by simp
    have st: "b32d_step (res, bits, v, index) c = (res[index := b], k, ?v', Suc index)"
      using True unfolding b_def by (simp add: b32d_step_def Let_def k_def [symmetric] km)
    have tk: "take (Suc index) (res[index := b]) = take index res @ [b]"
      using il by (simp add: take_Suc_conv_app_nth)
    have "uint (drop_bit k ?v' AND 255) < 2 ^ 8"
      unfolding uint_top8 by (rule drop_bit_pend_bounds)
    then have "take_bit 8 (uint (drop_bit k ?v' AND 255)) = uint (drop_bit k ?v' AND 255)"
      by (intro take_bit_int_eq_self) simp_all
    moreover have "uint b = take_bit 8 (uint (drop_bit k ?v' AND 255))"
      unfolding b_def by (simp add: unsigned_ucast_eq)
    ultimately have ub: "uint b = drop_bit k (pend (k + 8) ?v')"
      using uint_top8 [of k ?v'] by (simp only:)
    have "be_val (take index res @ [b]) * 2 ^ k + pend k ?v'
          = be_val (take index res) * (256 * 2 ^ k) + (uint b * 2 ^ k + pend k ?v')"
      by (simp add: be_val_snoc algebra_simps)
    also have "uint b * 2 ^ k + pend k ?v' = pend (k + 8) ?v'"
      unfolding ub by (rule pend_split [symmetric])
    also have "(256::int) * 2 ^ k = 2 ^ (k + 8)" by (simp add: power_add)
    finally have "be_val (take index res @ [b]) * 2 ^ k + pend k ?v'
          = (be_val (take index res) * 2 ^ bits + pend bits v) * 32 + ?i"
      using tot by (simp add: bk)
    moreover have "k < 8" "8 * Suc index + k = 8 * index + bits + 5"
      using assms(2) True by (simp_all add: k_def)
    ultimately show ?thesis unfolding st prod.case tk by simp
  qed
qed

lemma b32d_fold_spec:
  assumes "set cs \<subseteq> set BASE32_ALPHABET" "bits < 8"
    "8 * index + bits + 5 * length cs \<le> 8 * length res"
  shows "case fold (\<lambda>c st. b32d_step st c) cs (res, bits, v, index) of
           (res', bits', v', index') \<Rightarrow>
             bits' < 8 \<and> 8 * index' + bits' = 8 * index + bits + 5 * length cs \<and>
             length res' = length res \<and>
             be_val (take index' res') * 2 ^ bits' + pend bits' v'
               = fold (\<lambda>c a. a * 32 + indexOf BASE32_ALPHABET c) cs
                   (be_val (take index res) * 2 ^ bits + pend bits v)"
  using assms
proof (induction cs arbitrary: res bits v index)
  case Nil
  then show ?case by simp
next
  case (Cons c cs)
  have c: "c \<in> set BASE32_ALPHABET" and cs: "set cs \<subseteq> set BASE32_ALPHABET"
    using Cons.prems(1) by simp_all
  have l: "8 * index + bits + 5 \<le> 8 * length res" using Cons.prems(3) by simp
  from b32d_step_spec [OF c Cons.prems(2) l, of v]
  obtain r1 b1 v1 i1 where s: "b32d_step (res, bits, v, index) c = (r1, b1, v1, i1)"
    and p: "b1 < 8" "8 * i1 + b1 = 8 * index + bits + 5" "length r1 = length res"
      "be_val (take i1 r1) * 2 ^ b1 + pend b1 v1
         = (be_val (take index res) * 2 ^ bits + pend bits v) * 32 + indexOf BASE32_ALPHABET c"
    by (cases "b32d_step (res, bits, v, index) c") auto
  have "8 * i1 + b1 + 5 * length cs \<le> 8 * length r1"
    using p(2,3) Cons.prems(3) by simp
  from Cons.IH [OF cs p(1) this, of v1] p(2,3,4) show ?case
    by (simp add: s split: prod.splits)
qed

lemma be_val_inj: "length xs = length ys \<Longrightarrow> be_val xs = be_val ys \<Longrightarrow> xs = ys"
proof (induction xs arbitrary: ys rule: rev_induct)
  case Nil
  then show ?case by simp
next
  case (snoc x xs)
  then obtain y ys' where ys: "ys = ys' @ [y]" by (cases ys rule: rev_cases) auto
  from snoc.prems(2) have e: "be_val xs * 256 + uint x = be_val ys' * 256 + uint y"
    by (simp add: ys be_val_snoc)
  have bx: "0 \<le> uint x" "uint x < 256" "0 \<le> uint y" "uint y < 256"
    using uint_lt2p [of x] uint_lt2p [of y] by simp_all
  from e have "(be_val xs * 256 + uint x) mod 256 = (be_val ys' * 256 + uint y) mod 256"
    by simp
  then have "uint x mod 256 = uint y mod 256" by simp
  with bx have u: "uint x = uint y" by simp
  with e have "be_val xs = be_val ys'" by simp
  with snoc.IH [of ys'] snoc.prems(1) have "xs = ys'" by (simp add: ys)
  moreover from u have "x = y" by (simp add: word_uint_eq_iff)
  ultimately show ?case by (simp add: ys)
qed

text \<open>Decoding an encoded buffer gives the buffer back.\<close>

lemma decode_encode_Base32RFC: "decodeBase32RFC (encodeBase32RFC data) = Inr data"
proof -
  let ?s = "encodeBase32RFC data"
  let ?L = "(length ?s * 5 + 7) div 8"
  from encodeBase32RFC_spec [of data]
  obtain pad where e: "pad < 5" "5 * length ?s = 8 * length data + pad"
    "str_val ?s = be_val data * 2 ^ pad" "set ?s \<subseteq> set BASE32_ALPHABET"
    by blast
  have "8 * 0 + 0 + 5 * length ?s \<le> 8 * length (replicate ?L (0 :: byte))" by simp
  from b32d_fold_spec [OF e(4) _ this, of 0]
  obtain res bits v index
    where f: "fold (\<lambda>c st. b32d_step st c) ?s (replicate ?L 0, 0, 0, 0) = (res, bits, v, index)"
      and p: "bits < 8" "8 * index + bits = 5 * length ?s" "length res = ?L"
        "be_val (take index res) * 2 ^ bits + pend bits v = str_val ?s"
    by (cases "fold (\<lambda>c st. b32d_step st c) ?s (replicate ?L 0, 0, 0, 0)")
       (auto simp: str_val_def be_val_def)
  have "(8 * index + bits) mod 8 = (8 * length data + pad) mod 8"
    using p(2) e(2) by simp
  then have ib2: "bits = pad" using p(1) e(1) by simp
  then have ib1: "index = length data" using p(2) e(2) by simp
  note ib = ib1 ib2
  have "index \<le> length res" using p(2,3) by simp
  then have len: "length (take index res) = length data" using ib by simp
  have "be_val (take index res) * 2 ^ pad + pend pad v = be_val data * 2 ^ pad"
    using p(4) e(3) ib by simp
  moreover have "0 \<le> pend pad v" "pend pad v < 2 ^ pad" by (rule pend_bounds)+
  ultimately have "be_val (take index res) = be_val data"
  proof -
    assume a: "be_val (take index res) * 2 ^ pad + pend pad v = be_val data * 2 ^ pad"
      and b: "0 \<le> pend pad v" "pend pad v < 2 ^ pad"
    have "(be_val (take index res) * 2 ^ pad + pend pad v) div 2 ^ pad
          = be_val (take index res)"
      using b by (simp add: div_pos_pos_trivial)
    moreover have "(be_val data * 2 ^ pad) div 2 ^ pad = be_val data" by simp
    ultimately show ?thesis using a by simp
  qed
  with len have "take index res = data" by (rule be_val_inj)
  then show ?thesis by (simp add: decodeBase32RFC_def f)
qed

subsection \<open>Base64url\<close>

lemma byte_eqI:
  fixes x y :: byte
  assumes "bit x 0 = bit y 0" "bit x 1 = bit y 1" "bit x 2 = bit y 2" "bit x 3 = bit y 3"
    "bit x 4 = bit y 4" "bit x 5 = bit y 5" "bit x 6 = bit y 6" "bit x 7 = bit y 7"
  shows "x = y"
proof (rule bit_word_eqI)
  fix n assume "n < LENGTH(8)"
  then have "n \<in> {0, 1, 2, 3, 4, 5, 6, 7}"
    by simp arith
  then show "bit x n = bit y n" using assms by auto
qed

lemma masks: "(3 :: byte) = mask 2" "(15 :: byte) = mask 4" "(63 :: byte) = mask 6"
  by (simp_all add: mask_eq_exp_minus_1)

lemma sextet_join1:
  fixes a b :: byte
  shows "push_bit 2 (drop_bit 2 a AND 63) OR drop_bit 4 ((push_bit 4 (a AND 3) OR drop_bit 4 b) AND 63) = a"
  unfolding masks
  by (rule byte_eqI) (simp_all add: bit_simps)

lemma sextet_join1':
  fixes a :: byte
  shows "push_bit 2 (drop_bit 2 a AND 63) OR drop_bit 4 ((push_bit 4 (a AND 3)) AND 63) = a"
  unfolding masks
  by (rule byte_eqI) (simp_all add: bit_simps)

lemma sextet_join2:
  fixes a b c :: byte
  shows "push_bit 4 ((push_bit 4 (a AND 3) OR drop_bit 4 b) AND 63)
         OR drop_bit 2 ((push_bit 2 (b AND 15) OR drop_bit 6 c) AND 63) = b"
  unfolding masks
  by (rule byte_eqI) (simp_all add: bit_simps)

lemma sextet_join2':
  fixes a b :: byte
  shows "push_bit 4 ((push_bit 4 (a AND 3) OR drop_bit 4 b) AND 63)
         OR drop_bit 2 ((push_bit 2 (b AND 15)) AND 63) = b"
  unfolding masks
  by (rule byte_eqI) (simp_all add: bit_simps)

lemma sextet_join3:
  fixes b c :: byte
  shows "push_bit 6 ((push_bit 2 (b AND 15) OR drop_bit 6 c) AND 63) OR ((c AND 63) AND 63) = c"
  unfolding masks
  by (rule byte_eqI) (simp_all add: bit_simps)

lemma b64_groups_sextets: "b64_groups (map (\<lambda>x. x AND 63) (b64_sextets input)) = input"
proof (induction input rule: b64_sextets.induct)
  case (1 a b c rest)
  then show ?case
    by (simp only: b64_sextets.simps b64_groups.simps list.map append_Cons append_Nil map_append
        sextet_join1 sextet_join2 sextet_join3)
next
  case (2 a b)
  show ?case
    by (simp only: b64_sextets.simps b64_groups.simps list.map sextet_join1 sextet_join2')
next
  case (3 a)
  show ?case
    by (simp only: b64_sextets.simps b64_groups.simps list.map sextet_join1')
next
  case 4
  show ?case by simp
qed


lemma BASE64_distinct: "distinct BASE64_ALPHABET"
  by (simp add: BASE64_ALPHABET_def)

lemma BASE64_length: "length BASE64_ALPHABET = 64"
  by (simp add: BASE64_ALPHABET_def)

lemma BASE64_no_specials:
  "CHR ''='' \<notin> set BASE64_ALPHABET" "CHR ''-'' \<notin> set BASE64_ALPHABET"
  "CHR ''_'' \<notin> set BASE64_ALPHABET"
  by (simp_all add: BASE64_ALPHABET_def)

lemma unat_and_63: "unat (x AND 63) < 64" for x :: byte
proof -
  have "x AND 63 \<le> 63" by (rule word_and_le1)
  then show ?thesis by (simp add: word_le_nat_alt)
qed

lemma b64_char_in: "b64_char x \<in> set BASE64_ALPHABET"
  unfolding b64_char_def using unat_and_63 [of x] by (intro nth_mem) (simp add: BASE64_length)

lemma b64_char_ne:
  "b64_char x \<noteq> CHR ''=''" "b64_char x \<noteq> CHR ''-''" "b64_char x \<noteq> CHR ''_''"
  using b64_char_in [of x] BASE64_no_specials by metis+

lemma unbase64_b64_char: "unbase64 (b64_char x) = Some (x AND 63)"
proof -
  have "indexOf BASE64_ALPHABET (b64_char x) = int (unat (x AND 63))"
    unfolding b64_char_def using unat_and_63 [of x]
    by (intro indexOf_nth [OF BASE64_distinct]) (simp add: BASE64_length)
  then have i: "indexOf BASE64_ALPHABET (b64_char x) = uint (x AND 63)" by simp
  have "(0::int) \<le> uint (x AND 63)" by simp
  then have "uint (x AND 63) \<noteq> - 1" by linarith
  then show ?thesis by (simp add: unbase64_def b64_char_ne Let_def i)
qed

lemma map_filter_unbase64: "List.map_filter unbase64 (map b64_char xs) = map (\<lambda>x. x AND 63) xs"
  by (induction xs) (simp_all add: unbase64_b64_char)

lemma remove_eq_base64:
  "remove_all CHR ''='' (buffer_toString_base64 input) = map b64_char (b64_sextets input)"
  by (induction input rule: b64_sextets.induct) (simp_all add: remove_all_def b64_char_ne)

lemma url_chars_back:
  assumes "c \<noteq> CHR ''-''" "c \<noteq> CHR ''_''"
  shows "(let c1 = (if c = CHR ''+'' then CHR ''-'' else c);
              c2 = (if c1 = CHR ''/'' then CHR ''_'' else c1);
              c3 = (if c2 = CHR ''-'' then CHR ''+'' else c2)
          in (if c3 = CHR ''_'' then CHR ''/'' else c3)) = c"
  using assms by (simp add: Let_def)

lemma url_replace_back:
  assumes "CHR ''-'' \<notin> set s" "CHR ''_'' \<notin> set s"
  shows "replace_all CHR ''_'' CHR ''/'' (replace_all CHR ''-'' CHR ''+''
           (replace_all CHR ''/'' CHR ''_'' (replace_all CHR ''+'' CHR ''-'' s))) = s"
  using assms
proof (induction s)
  case Nil
  then show ?case by (simp add: replace_all_def)
next
  case (Cons c s)
  then have "c \<noteq> CHR ''-''" "c \<noteq> CHR ''_''" by auto
  from url_chars_back [OF this] Cons show ?case
    by (simp add: replace_all_def Let_def)
qed

lemma takeWhile_no_eq:
  "CHR ''='' \<notin> set s \<Longrightarrow> takeWhile (\<lambda>c. c \<noteq> CHR ''='') (s @ replicate k CHR ''='') = s"
  by (induction s) auto

lemma charCodes_latin1: "charCodes (latin1 buf) = buf"
proof -
  have "(of_nat (of_char (char_of (unat b) :: char)) :: byte) = b" for b :: byte
  proof -
    have "unat b < 256" using unsigned_less [of b] by simp
    then show ?thesis by simp
  qed
  then show ?thesis by (simp add: charCodes_def latin1_def comp_def)
qed

text \<open>Decoding an encoded buffer gives the buffer back.\<close>

lemma decode_encode_Base64URL: "decodeBase64URL (encodeBase64URL input) = Inr input"
proof -
  let ?s = "map b64_char (b64_sextets input)"
  have n: "CHR ''='' \<notin> set ?s" "CHR ''-'' \<notin> set ?s" "CHR ''_'' \<notin> set ?s"
    by (auto simp: b64_char_ne b64_char_ne [symmetric])
  have e: "encodeBase64URL input
           = replace_all CHR ''/'' CHR ''_'' (replace_all CHR ''+'' CHR ''-'' ?s)"
    by (simp add: encodeBase64URL_def remove_eq_base64)
  have b: "replace_all CHR ''_'' CHR ''/'' (replace_all CHR ''-'' CHR ''+'' (encodeBase64URL input)) = ?s"
    unfolding e using n(2,3) by (rule url_replace_back)
  have f: "buffer_from_base64 (?s @ replicate k CHR ''='') = input" for k
    by (simp add: buffer_from_base64_def takeWhile_no_eq [OF n(1)] map_filter_unbase64
        b64_groups_sextets)
  have f0: "buffer_from_base64 ?s = input" using f [of 0] by simp
  show ?thesis
    unfolding decodeBase64URL_def Let_def b
    by (simp add: f f0 charCodes_latin1)
qed

section \<open>Round trips of the three codecs\<close>

text \<open>
  C3, as stated: decoding an encoded buffer gives the buffer back, for every buffer and
  each of the three codecs.  Base58 loses leading zero bytes: the buffer of one zero
  byte encodes to the empty text, which decodes to the empty buffer.
\<close>

theorem base58_roundtrip_counterexample:
  "encodeBase58BTC [0] = [] \<and> decodeBase58BTC (encodeBase58BTC [0]) = Inr [] \<and>
   decodeBase58BTC (encodeBase58BTC [0]) \<noteq> Inr [0]"
  by code_simp

text \<open>
  C3, amended: for every buffer that does not begin with a zero byte,
  \<open>decodeBase58BTC (encodeBase58BTC b) = b\<close>; for every buffer,
  \<open>decodeBase32RFC (encodeBase32RFC b) = b\<close> and
  \<open>decodeBase64URL (encodeBase64URL b) = b\<close>.
\<close>

theorem codec_roundtrip:
  "(b = [] \<or> hd b \<noteq> 0 \<longrightarrow> decodeBase58BTC (encodeBase58BTC b) = Inr b) \<and>
   decodeBase32RFC (encodeBase32RFC b) = Inr b \<and>
   decodeBase64URL (encodeBase64URL b) = Inr b"
proof -
  have "dropWhile (\<lambda>x. x = 0) b = b" if "b = [] \<or> hd b \<noteq> 0"
    using that by (cases b) auto
  then show ?thesis
    by (simp add: decode_encode_Base58BTC decode_encode_Base32RFC decode_encode_Base64URL)
qed

theorem codec_roundtrip_witness:
  "([1, 0, 255 :: byte] = [] \<or> hd [1, 0, 255 :: byte] \<noteq> 0) \<and>
   decodeBase58BTC (encodeBase58BTC [1, 0, 255]) = Inr [1, 0, 255] \<and>
   decodeBase32RFC (encodeBase32RFC [0, 0, 255]) = Inr [0, 0, 255] \<and>
   decodeBase64URL (encodeBase64URL [0, 0, 255]) = Inr [0, 0, 255]"
  using codec_roundtrip [of "[1, 0, 255]"] codec_roundtrip [of "[0, 0, 255]"] by simp

section \<open>Characters outside the alphabet\<close>

lemma b58d_loop_invalid:
  "\<exists>c\<in>set s. c \<notin> set ALPHABET \<Longrightarrow>
     b58d_loop bytes s = Inl (Error ''Invalid Base58Bitcoin string'')"
proof (induction s arbitrary: bytes)
  case Nil
  then show ?case by simp
next
  case (Cons c cs)
  show ?case
  proof (cases "indexOf ALPHABET c = - 1")
    case True
    then show ?thesis by simp
  next
    case False
    then have "c \<in> set ALPHABET" using indexOf_notin by blast
    with Cons.prems have "\<exists>c\<in>set cs. c \<notin> set ALPHABET" by auto
    from Cons.IH [OF this] False show ?thesis
      by (simp add: Let_def split: prod.splits)
  qed
qed

text \<open>
  C5, as stated: each of the three decoders fails on a text with a character outside its
  alphabet.  \<open>!\<close> is in none of the alphabets; \<open>decodeBase32RFC\<close> and
  \<open>decodeBase64URL\<close> return the empty buffer for it.
\<close>

theorem decoders_invalid_counterexample:
  "CHR ''!'' \<notin> set BASE32_ALPHABET \<and> decodeBase32RFC ''!'' = Inr [] \<and>
   CHR ''!'' \<notin> set BASE64_ALPHABET \<and> decodeBase64URL ''!'' = Inr []"
  by code_simp

text \<open>
  C5, amended: \<open>decodeBase58BTC\<close> fails with \<open>Error('Invalid Base58Bitcoin string')\<close>
  on every text with a character outside the base58 alphabet; \<open>decodeBase64URL\<close>
  raises on no text (the runtime's decoder skips such characters).
\<close>

theorem decodeBase58BTC_invalid:
  "((\<exists>c\<in>set s. c \<notin> set ALPHABET) \<longrightarrow>
      decodeBase58BTC s = Inl (Error ''Invalid Base58Bitcoin string'')) \<and>
   (\<exists>bytes. decodeBase64URL s = Inr bytes)"
  by (simp add: decodeBase58BTC_def b58d_loop_invalid decodeBase64URL_def Let_def)

theorem decodeBase58BTC_invalid_witness:
  "(\<exists>c\<in>set ''2N0p''. c \<notin> set ALPHABET) \<and>
   decodeBase58BTC ''2N0p'' = Inl (Error ''Invalid Base58Bitcoin string'')"
proof -
  have h: "\<exists>c\<in>set ''2N0p''. c \<notin> set ALPHABET" by (simp add: ALPHABET_def)
  with decodeBase58BTC_invalid [of "''2N0p''"] show ?thesis by blast
qed

section \<open>The three text forms of a CID\<close>

lemma BASE32_case:
  "\<forall>c\<in>set BASE32_ALPHABET.
     toUpperChar (toLowerChar c) = c \<and> toUpperChar c = c \<and>
     (\<not> isLower (toLowerChar c) \<longrightarrow> toLowerChar c = c)"
  by (simp add: BASE32_ALPHABET_def toUpperChar_def toLowerChar_def isLower_def
      lowerLetters_def upperLetters_def)

lemma upper_of_lower_body:
  assumes "set s \<subseteq> set BASE32_ALPHABET"
  shows "(if hasLower (toLowerCase s) then toUpperCase (toLowerCase s) else toLowerCase s) = s"
proof (cases "hasLower (toLowerCase s)")
  case True
  have "map (toUpperChar \<circ> toLowerChar) s = s"
    using assms BASE32_case by (intro map_idI) auto
  with True show ?thesis by (simp add: toUpperCase_def toLowerCase_def)
next
  case False
  then have "\<forall>c\<in>set s. \<not> isLower (toLowerChar c)"
    by (simp add: hasLower_def toLowerCase_def list_ex_iff)
  then have "map toLowerChar s = s"
    using assms BASE32_case by (intro map_idI) auto
  with False show ?thesis by (simp add: toLowerCase_def)
qed

lemma upper_of_upper_body:
  assumes "set s \<subseteq> set BASE32_ALPHABET"
  shows "(if hasLower s then toUpperCase s else s) = s"
proof -
  have "map toUpperChar s = s" using assms BASE32_case by (intro map_idI) auto
  then show ?thesis by (simp add: toUpperCase_def)
qed

lemma hasLower_b: "hasLower (CHR ''b'' # s)"
  by (simp add: hasLower_def isLower_def lowerLetters_def)

lemma decodeCIDWithPrefixB_lower:
  assumes "set s \<subseteq> set BASE32_ALPHABET"
  shows "decodeCIDWithPrefixB (CHR ''b'' # toLowerCase s) = decodeBase32RFC s"
  using upper_of_lower_body [OF assms]
  by (auto simp add: decodeCIDWithPrefixB_def Let_def char0_def hasLower_b substring1_def
      split: if_splits)

lemma decodeCIDWithPrefixB_upper:
  assumes "set s \<subseteq> set BASE32_ALPHABET"
  shows "decodeCIDWithPrefixB (CHR ''b'' # s) = decodeBase32RFC s"
  using upper_of_upper_body [OF assms]
  by (auto simp add: decodeCIDWithPrefixB_def Let_def char0_def hasLower_b substring1_def
      split: if_splits)

lemma encodeBase32RFC_chars: "set (encodeBase32RFC data) \<subseteq> set BASE32_ALPHABET"
  using encodeBase32RFC_spec [of data] by blast

lemma decode_encode_CIDWithPrefixB: "decodeCIDWithPrefixB (encodeCIDWithPrefixB c) = Inr c"
  by (simp add: encodeCIDWithPrefixB_def decodeCIDWithPrefixB_lower [OF encodeBase32RFC_chars]
      decode_encode_Base32RFC)

lemma decode_encode_CIDWithPrefixU: "decodeCIDWithPrefixU (encodeCIDWithPrefixU c) = Inr c"
  by (simp add: encodeCIDWithPrefixU_def decodeCIDWithPrefixU_def char0_def substring1_def
      decode_encode_Base64URL)

lemma decode_encode_CIDWithPrefixZ:
  "c = [] \<or> hd c \<noteq> 0 \<Longrightarrow> decodeCIDWithPrefixZ (encodeCIDWithPrefixZ c) = Inr c"
proof -
  assume "c = [] \<or> hd c \<noteq> 0"
  then have "dropWhile (\<lambda>x. x = 0) c = c" by (cases c) auto
  then show ?thesis
    by (simp add: encodeCIDWithPrefixZ_def decodeCIDWithPrefixZ_def char0_def substring1_def
        decode_encode_Base58BTC)
qed

lemma decode_encode_CID:
  "c = [] \<or> hd c \<noteq> 0 \<Longrightarrow> decodeCID p (encodeCID p c) = Inr c"
  by (cases p)
     (simp_all add: decodeCID_def encodeCID_def decode_encode_CIDWithPrefixZ
        decode_encode_CIDWithPrefixU decode_encode_CIDWithPrefixB)

lemma cidTypes_nonzero: "0 \<notin> set cidTypes"
  by (simp add: cidTypes_def cidTypeRaw_def cidTypeMetadataMedia_def cidTypeMetadataWebApp_def
      cidTypeResolver_def cidTypeUserIdentity_def cidTypeBridge_def cidTypeEncrypted_def)

text \<open>
  C1.  Let \<open>c\<close> be a binary CID of at least 34 bytes whose first byte is a registered
  type tag, and \<open>p1\<close>, \<open>p2\<close> any two of the prefixes \<open>z\<close>, \<open>u\<close>, \<open>b\<close>.  Decoding
  the \<open>p1\<close> form of \<open>c\<close> succeeds, and encoding the result with \<open>p2\<close> and decoding
  again gives exactly \<open>c\<close>.
\<close>

theorem cross_form_roundtrip:
  assumes "34 \<le> length c" "hd c \<in> set cidTypes"
  shows "\<exists>c'. decodeCID p1 (encodeCID p1 c) = Inr c' \<and>
              decodeCID p2 (encodeCID p2 c') = Inr c"
proof -
  have "hd c \<noteq> 0" using assms(2) cidTypes_nonzero by metis
  then have "c = [] \<or> hd c \<noteq> 0" by simp
  then have "decodeCID p1 (encodeCID p1 c) = Inr c" "decodeCID p2 (encodeCID p2 c) = Inr c"
    by (rule decode_encode_CID)+
  then show ?thesis by blast
qed

theorem cross_form_roundtrip_witness:
  "34 \<le> length ([0x26, 0x1f] @ replicate 32 0 @ [5 :: byte]) \<and>
   hd ([0x26, 0x1f] @ replicate 32 0 @ [5 :: byte]) \<in> set cidTypes \<and>
   (\<exists>c'. decodeCID PrefixZ (encodeCID PrefixZ ([0x26, 0x1f] @ replicate 32 0 @ [5])) = Inr c' \<and>
         decodeCID PrefixB (encodeCID PrefixB c') = Inr ([0x26, 0x1f] @ replicate 32 0 @ [5]))"
proof -
  have l: "34 \<le> length ([0x26, 0x1f] @ replicate 32 0 @ [5 :: byte])" by simp
  have t: "hd ([0x26, 0x1f] @ replicate 32 0 @ [5 :: byte]) \<in> set cidTypes"
    by (simp add: cidTypes_def cidTypeRaw_def)
  from l t cross_form_roundtrip [OF l t, of PrefixZ PrefixB] show ?thesis by blast
qed

text \<open>
  C9.  For every buffer, the \<open>b\<close> form with the upper-case base32 body and the
  \<open>b\<close> form with the same body in lower case decode, with \<open>decodeCIDWithPrefixB\<close>, to
  the same bytes: the bytes of the buffer.
\<close>

theorem decodeCIDWithPrefixB_case_tolerant:
  "decodeCIDWithPrefixB (CHR ''b'' # encodeBase32RFC bytes)
     = decodeCIDWithPrefixB (CHR ''b'' # toLowerCase (encodeBase32RFC bytes)) \<and>
   decodeCIDWithPrefixB (CHR ''b'' # encodeBase32RFC bytes) = Inr bytes"
  by (simp add: decodeCIDWithPrefixB_lower [OF encodeBase32RFC_chars]
      decodeCIDWithPrefixB_upper [OF encodeBase32RFC_chars] decode_encode_Base32RFC)

section \<open>The size codec below 31 bits\<close>

lemma numToBuf_loop_spec:
  assumes "0 \<le> v" "v < 2 ^ 31" "0 \<le> i" "i \<le> lastIndex + 1"
    "lastIndex + 1 = int (length buffer)" "v < 256 ^ nat (lastIndex + 1 - i)"
  shows "case numToBuf_loop buffer lastIndex i v of (buffer', last') \<Rightarrow>
           i - 1 \<le> last' \<and> last' \<le> lastIndex \<and> length buffer' = length buffer \<and>
           take (nat i) buffer' = take (nat i) buffer \<and>
           le_val 256 (map uint (drop (nat i) (take (nat (last' + 1)) buffer'))) = v"
  using assms
proof (induction buffer lastIndex i v rule: numToBuf_loop.induct)
  case (1 buffer lastIndex i v)
  show ?case
  proof (cases "i \<le> lastIndex")
    case False
    with 1(5) have "i = lastIndex + 1" by simp
    with 1(7) have "v < 1" by simp
    with 1(2) have "v = 0" by simp
    with False \<open>i = lastIndex + 1\<close> show ?thesis
      by (subst numToBuf_loop.simps) simp
  next
    case True
    show ?thesis
    proof (cases "v = 0")
      case True
      with \<open>i \<le> lastIndex\<close> 1(4) show ?thesis
        by (subst numToBuf_loop.simps) simp
    next
      case False
      let ?b = "word_of_int (v mod 256) :: byte"
      let ?buf = "buffer[nat i := ?b]"
      have r: "js_rem v 256 = v mod 256" using 1(2) by (intro js_rem_nonneg) simp_all
      have q: "js_sar v 8 = v div 256" using 1(2,3) by (rule js_sar_8_nonneg)
      have st: "buf_store buffer i (js_rem v 256) = ?buf" using 1(4) by (simp add: buf_store_def r)
      have un: "numToBuf_loop buffer lastIndex i v = numToBuf_loop ?buf lastIndex (i + 1) (v div 256)"
        using True False by (subst numToBuf_loop.simps) (simp add: st q)
      define k where "k = nat (lastIndex - i)"
      have k: "nat (lastIndex + 1 - i) = Suc k" "nat (lastIndex + 1 - (i + 1)) = k"
        using True by (simp_all add: k_def)
      have "v < 256 * 256 ^ k" using 1(7) by (simp add: k)
      moreover have "v < 256 * p \<Longrightarrow> v div 256 < p" for p :: int
        by presburger
      ultimately have room: "v div 256 < 256 ^ nat (lastIndex + 1 - (i + 1))"
        unfolding k by blast
      have ih: "case numToBuf_loop ?buf lastIndex (i + 1) (v div 256) of (buffer', last') \<Rightarrow>
           i + 1 - 1 \<le> last' \<and> last' \<le> lastIndex \<and> length buffer' = length ?buf \<and>
           take (nat (i + 1)) buffer' = take (nat (i + 1)) ?buf \<and>
           le_val 256 (map uint (drop (nat (i + 1)) (take (nat (last' + 1)) buffer'))) = v div 256"
        using 1(1) [OF True False, unfolded st q] 1(2,3,4,6) True room
        by simp
      obtain buffer' last' where res: "numToBuf_loop ?buf lastIndex (i + 1) (v div 256) = (buffer', last')"
        by (cases "numToBuf_loop ?buf lastIndex (i + 1) (v div 256)") auto
      with ih have p: "i \<le> last'" "last' \<le> lastIndex" "length buffer' = length buffer"
        "take (nat (i + 1)) buffer' = take (nat (i + 1)) ?buf"
        "le_val 256 (map uint (drop (nat (i + 1)) (take (nat (last' + 1)) buffer'))) = v div 256"
        by simp_all
      have il: "nat i < length buffer" using True 1(4,6) by simp
      have ni: "nat (i + 1) = Suc (nat i)" using 1(4) by simp
      have "take (nat i) (take (Suc (nat i)) buffer') = take (nat i) (take (Suc (nat i)) ?buf)"
        using p(4) by (simp add: ni)
      then have t: "take (nat i) buffer' = take (nat i) buffer" by simp
      have "(take (Suc (nat i)) buffer') ! nat i = (take (Suc (nat i)) ?buf) ! nat i"
        using p(4) by (simp add: ni)
      then have e: "buffer' ! nat i = ?b" using il by simp
      have "nat i < length (take (nat (last' + 1)) buffer')"
        using p(1,2,3) il 1(4,6) by simp
      then have "drop (nat i) (take (nat (last' + 1)) buffer')
                 = (take (nat (last' + 1)) buffer') ! nat i
                   # drop (Suc (nat i)) (take (nat (last' + 1)) buffer')"
        by (rule Cons_nth_drop_Suc [symmetric])
      moreover have "(take (nat (last' + 1)) buffer') ! nat i = ?b"
        using p(1) 1(4) e by simp
      moreover have "uint ?b = v mod 256"
        using 1(2) by (simp add: uint_word_of_int)
      ultimately have "le_val 256 (map uint (drop (nat i) (take (nat (last' + 1)) buffer'))) = v"
        using p(5) by (simp add: ni)
      with p(1,2,3) t show ?thesis unfolding un res by simp
    qed
  qed
qed

lemma js_Number_small: "v < 2 ^ 53 \<Longrightarrow> js_Number v = v"
  by (simp add: js_Number_def)

text \<open>Below \<open>2^31\<close> the shift is a division by 256, and the size is read back as
  written.\<close>

lemma numToBuf_roundtrip_below_2_31:
  assumes "0 \<le> s" "s < 2 ^ 31"
  shows "bufToNum (numToBuf s 16) = s"
proof -
  have "s < 256 ^ nat (15 + 1 - 0)" using assms(2) by simp
  from numToBuf_loop_spec [OF assms _ _ _ this, of "replicate 16 0"]
  obtain buffer' last' where res: "numToBuf_loop (replicate 16 0) 15 0 s = (buffer', last')"
    and p: "- 1 \<le> last'" "length buffer' = 16"
      "le_val 256 (map uint (take (nat (last' + 1)) buffer')) = s"
    by (cases "numToBuf_loop (replicate 16 0) 15 0 s") auto
  have sl: "buf_slice buffer' 0 (last' + 1) = take (nat (last' + 1)) buffer'"
    using p(1) by (simp add: buf_slice_def slice_pos_def min_def)
  have "bufToNum xs = js_Number (le_val 256 (map uint xs))" for xs
    using be_val_le_val [of "rev xs"] by (simp add: bufToNum_def be_val_def rev_map)
  then show ?thesis
    using assms(2) by (simp add: numToBuf_def res sl p(3) js_Number_small)
qed

end
